theory Spec2Isabelle
  imports Main "HOL-Library.Sublist"
begin

section \<open>Manifest records (batch\_crawl.py)\<close>

text \<open>
  A manifest is the list of dictionaries that \<^verbatim>\<open>load_manifest\<close> reads from
  \<^verbatim>\<open>manifest.json\<close>. Each dictionary is an article record. The code reads the keys
  with \<^verbatim>\<open>a.get(k)\<close>, for which a missing key and an empty value are both falsy,
  so a field of the record holds the empty value where the key is absent. Keys that
  the crawler itself never touches are kept in \<open>extras\<close>.
\<close>

record article =
  seq :: int
  url :: string
  title :: string
  status :: string
  dir_name :: string
  errors :: "string list"
  author :: string
  publish_time :: string
  extras :: "(string \<times> string) list"

subsection \<open>build\_manifest\_from\_urls\<close>

text \<open>
  \<^verbatim>\<open>existing_by_url = {a["url"]: a for a in existing if a.get("url")}\<close>

  The dictionary holds references to the records of \<open>existing\<close>, so the model keeps the
  records in a store (a list, the address of a record is its position) and the
  dictionary maps a URL to an address. A later record with the same URL replaces an
  earlier one, as in a dict comprehension.
\<close>

fun index_by_url :: "article list \<Rightarrow> nat \<Rightarrow> (string \<rightharpoonup> nat) \<Rightarrow> (string \<rightharpoonup> nat)" where
  "index_by_url [] p ix = ix"
| "index_by_url (a # as) p ix =
     index_by_url as (Suc p) (if url a \<noteq> [] then ix(url a \<mapsto> p) else ix)"

definition new_entry :: "int \<Rightarrow> string \<Rightarrow> article" where
  "new_entry n u =
     \<lparr>seq = n, url = u, title = [], status = ''pending'', dir_name = [],
      errors = [], author = [], publish_time = [], extras = []\<rparr>"

text \<open>
  The loop over \<^verbatim>\<open>enumerate(urls)\<close>. \<open>h\<close> is the store, \<open>mg\<close> the list
  \<^verbatim>\<open>merged\<close> of addresses. A record found in the dictionary is updated in place in
  the store and its address appended; a fresh dictionary is allocated at the end of
  the store.
\<close>

fun merge_loop ::
  "(string \<rightharpoonup> nat) \<Rightarrow> nat \<Rightarrow> string list \<Rightarrow> article list \<Rightarrow> nat list \<Rightarrow> article list \<times> nat list" where
  "merge_loop ix idx [] h mg = (h, mg)"
| "merge_loop ix idx (u # us) h mg =
     (case ix u of
        Some p \<Rightarrow> merge_loop ix (Suc idx) us (h[p := (h ! p)\<lparr>seq := int idx + 1\<rparr>]) (mg @ [p])
      | None \<Rightarrow> merge_loop ix (Suc idx) us (h @ [new_entry (int idx + 1) u]) (mg @ [length h]))"

text \<open>The value returned is the list \<^verbatim>\<open>merged\<close>, read through the final store.\<close>

definition build_manifest_from_urls :: "string list \<Rightarrow> article list \<Rightarrow> article list" where
  "build_manifest_from_urls urls existing =
     (case merge_loop (index_by_url existing 0 Map.empty) 0 urls existing [] of
        (h, mg) \<Rightarrow> map (\<lambda>p. h ! p) mg)"

text \<open>
  The merge as the specification words it: the record kept for a URL is the last
  record of the existing manifest with that (non-empty) URL.
\<close>

definition find_record :: "article list \<Rightarrow> string \<Rightarrow> article option" where
  "find_record existing u = (if u = [] then None else find (\<lambda>a. url a = u) (rev existing))"

definition merged_entry :: "article list \<Rightarrow> nat \<Rightarrow> string \<Rightarrow> article" where
  "merged_entry existing i u =
     (case find_record existing u of
        Some a \<Rightarrow> a\<lparr>seq := int i + 1\<rparr>
      | None \<Rightarrow> new_entry (int i + 1) u)"

subsection \<open>The work queue of cmd\_crawl\<close>

text \<open>
  \<^verbatim>\<open>
  to_process = []
  for a in articles:
      if not a.get("url"): continue
      if not args.force and a.get("status") in ("downloaded", "extracted"): continue
      to_process.append(a)
  if args.limit and args.limit > 0:
      to_process = to_process[:args.limit]
  \<close>
\<close>

definition terminal_success :: "string \<Rightarrow> bool" where
  "terminal_success s \<longleftrightarrow> s = ''downloaded'' \<or> s = ''extracted''"

fun filter_loop :: "bool \<Rightarrow> article list \<Rightarrow> article list \<Rightarrow> article list" where
  "filter_loop force [] to_process = to_process"
| "filter_loop force (a # as) to_process =
     (if url a = [] then filter_loop force as to_process
      else if \<not> force \<and> terminal_success (status a) then filter_loop force as to_process
      else filter_loop force as (to_process @ [a]))"

definition work_queue :: "bool \<Rightarrow> int \<Rightarrow> article list \<Rightarrow> article list" where
  "work_queue force limit articles =
     (let to_process = filter_loop force articles []
      in if limit \<noteq> 0 \<and> limit > 0 then take (nat limit) to_process else to_process)"

subsection \<open>cmd\_retry\<close>

text \<open>
  \<^verbatim>\<open>
  if not articles: return
  failed = [a for a in articles if a.get("status") == "failed"]
  if not failed: return
  for a in failed:
      a["status"] = "pending"
      a["errors"] = []
  save_manifest(articles, output_dir)
  cmd_crawl(args)
  \<close>
  The records of a loaded manifest are distinct objects, so \<open>failed\<close> is the list of
  their positions. The function returns the manifest as it stands when the command
  leaves this phase, and whether \<^verbatim>\<open>cmd_crawl\<close> is entered.
\<close>

definition failed_positions :: "article list \<Rightarrow> nat list" where
  "failed_positions articles = filter (\<lambda>i. status (articles ! i) = ''failed'') [0..<length articles]"

fun reset_loop :: "nat list \<Rightarrow> article list \<Rightarrow> article list" where
  "reset_loop [] h = h"
| "reset_loop (i # is) h = reset_loop is (h[i := (h ! i)\<lparr>status := ''pending'', errors := []\<rparr>])"

definition cmd_retry :: "article list \<Rightarrow> article list \<times> bool" where
  "cmd_retry articles =
     (if articles = [] then (articles, False)
      else let failed = failed_positions articles
           in if failed = [] then (articles, False)
              else (reset_loop failed articles, True))"

subsection \<open>Auxiliary notions for the merge loop\<close>

text \<open>
  The dictionary built from a manifest of length \<open>n\<close> only holds addresses below \<open>n\<close>
  and never maps two URLs to one address.
\<close>

definition ix_ok :: "(string \<rightharpoonup> nat) \<Rightarrow> nat \<Rightarrow> bool" where
  "ix_ok ix n \<longleftrightarrow>
     (\<forall>u p. ix u = Some p \<longrightarrow> p < n) \<and> (\<forall>u v p. ix u = Some p \<and> ix v = Some p \<longrightarrow> u = v)"

definition slot :: "(string \<rightharpoonup> nat) \<Rightarrow> article list \<Rightarrow> nat \<Rightarrow> string \<Rightarrow> article" where
  "slot ix h i u =
     (case ix u of Some p \<Rightarrow> (h ! p)\<lparr>seq := int i + 1\<rparr> | None \<Rightarrow> new_entry (int i + 1) u)"

subsection \<open>Sample records\<close>

definition done1 :: article where
  "done1 =
     \<lparr>seq = 7, url = ''https://mp.weixin.qq.com/s/a'', title = ''T'', status = ''extracted'',
      dir_name = ''0007_T'', errors = [], author = ''A'', publish_time = ''2024-01-01'',
      extras = []\<rparr>"

definition failed1 :: article where
  "failed1 =
     \<lparr>seq = 2, url = ''https://mp.weixin.qq.com/s/b'', title = [], status = ''failed'',
      dir_name = [], errors = [''download failed''], author = [], publish_time = [],
      extras = [(''note'', ''x'')]\<rparr>"

section \<open>Fetching a page through Chrome (batch\_crawl.py)\<close>

text \<open>
  A Python \<^verbatim>\<open>str\<close> is a sequence of code points, and \<^verbatim>\<open>len\<close> and slicing count
  code points. Where the source counts or classifies characters the model uses lists of
  code points; elsewhere, where strings are only compared, it uses \<open>string\<close>.
\<close>

type_synonym pystr = "nat list"

definition MAX_RETRIES :: nat where "MAX_RETRIES = 3"
definition BACKOFF_BASE :: nat where "BACKOFF_BASE = 5"
definition RATE_LIMIT_PAUSE :: nat where "RATE_LIMIT_PAUSE = 60"

text \<open>The marker of the anti-crawl page, U+73AF U+5883 U+5F02 U+5E38.\<close>

definition anti_crawl_marker :: pystr where
  "anti_crawl_marker = [0x73AF, 0x5883, 0x5F02, 0x5E38]"

text \<open>
  One run of \<^verbatim>\<open>node cdp_fetch.js\<close> followed by reading the temporary file: the
  process exits with a non-zero code, the call times out, another exception is raised
  (also by \<^verbatim>\<open>read_text\<close>), or the text of the page is read.
\<close>

datatype cdp_outcome = NonZeroExit | TimeoutExpired | OtherException | Html pystr

text \<open>
  \<^verbatim>\<open>
  if attempt < MAX_RETRIES:
      time.sleep(BACKOFF_BASE * (2 ** attempt))
  \<close>
  The sleeps are recorded in a list of seconds.
\<close>

definition backoff :: "nat \<Rightarrow> nat list \<Rightarrow> nat list" where
  "backoff attempt sl = (if attempt < MAX_RETRIES then sl @ [BACKOFF_BASE * 2 ^ attempt] else sl)"

text \<open>
  The body of \<^verbatim>\<open>for attempt in range(MAX_RETRIES + 1)\<close>. The browser is an oracle
  \<open>cdp\<close> that gives the outcome of the \<open>k\<close>-th run; \<open>k\<close> counts the runs made so far.
  Every \<^verbatim>\<open>continue\<close> and every handled exception goes on with the next element of the
  range. The result is the page (or \<open>None\<close>), the number of runs and the sleeps.
\<close>

fun fetch_loop ::
  "(nat \<Rightarrow> cdp_outcome) \<Rightarrow> nat list \<Rightarrow> nat \<Rightarrow> nat list \<Rightarrow> pystr option \<times> nat \<times> nat list" where
  "fetch_loop cdp [] k sl = (None, k, sl)"
| "fetch_loop cdp (attempt # rest) k sl =
     (case cdp k of
        NonZeroExit \<Rightarrow> fetch_loop cdp rest (Suc k) (backoff attempt sl)
      | Html html_text \<Rightarrow>
          if sublist anti_crawl_marker (take 3000 html_text)
          then fetch_loop cdp rest (Suc k) (sl @ [RATE_LIMIT_PAUSE])
          else if length html_text < 1000
          then fetch_loop cdp rest (Suc k) (backoff attempt sl)
          else (Some html_text, Suc k, sl)
      | TimeoutExpired \<Rightarrow> fetch_loop cdp rest (Suc k) (backoff attempt sl)
      | OtherException \<Rightarrow> fetch_loop cdp rest (Suc k) (backoff attempt sl))"

definition download_raw_html_cdp :: "(nat \<Rightarrow> cdp_outcome) \<Rightarrow> pystr option \<times> nat \<times> nat list" where
  "download_raw_html_cdp cdp = fetch_loop cdp [0..<MAX_RETRIES + 1] 0 []"

text \<open>The two kinds of page the loop tells apart.\<close>

fun is_anti_crawl :: "cdp_outcome \<Rightarrow> bool" where
  "is_anti_crawl (Html html_text) = sublist anti_crawl_marker (take 3000 html_text)"
| "is_anti_crawl _ = False"

fun is_content :: "cdp_outcome \<Rightarrow> bool" where
  "is_content (Html html_text) =
     (\<not> sublist anti_crawl_marker (take 3000 html_text) \<and> 1000 \<le> length html_text)"
| "is_content _ = False"

text \<open>Sample pages: a real page of 1000 letters, and the anti-crawl page.\<close>

definition real_page :: pystr where
  "real_page = replicate 1000 97"

definition anti_crawl_page :: pystr where
  "anti_crawl_page = anti_crawl_marker"

subsection \<open>One record of the crawl loop (cmd\_crawl)\<close>

text \<open>
  \<^verbatim>\<open>
  raw_html = download_raw_html_cdp(url, cdp_port)
  if raw_html is None:
      article["status"] = "failed"
      article["errors"] = article.get("errors", []) + ["download failed"]
      ...; continue
  try:
      result = extract_article(raw_html, ...)
      article["status"] = "extracted"
      article["title"] = result.get("title", article.get("title", ""))
      article["dir_name"] = result.get("dir_name", "")
      article["author"] = result.get("author", "")
      article["publish_time"] = result.get("publish_time", "")
      if result.get("errors"): article["errors"] = result["errors"]
  except Exception as e:
      article["status"] = "failed"
      article["errors"] = article.get("errors", []) + [str(e)]
  \<close>
  The outcome of \<^verbatim>\<open>extract_article\<close> on the page is an input of the step, read as
  the driver reads it: an exception, or the fields of the result dictionary.
\<close>

record crawl_result =
  c_title :: string
  c_dir_name :: string
  c_author :: string
  c_publish_time :: string
  c_errors :: "string list"

definition crawl_record ::
  "(nat \<Rightarrow> cdp_outcome) \<Rightarrow> (pystr \<Rightarrow> string + crawl_result) \<Rightarrow> article \<Rightarrow> article" where
  "crawl_record cdp extract a =
     (case fst (download_raw_html_cdp cdp) of
        None \<Rightarrow> a\<lparr>status := ''failed'', errors := errors a @ [''download failed'']\<rparr>
      | Some raw_html \<Rightarrow>
          (case extract raw_html of
             Inr r \<Rightarrow>
               a\<lparr>status := ''extracted'', title := c_title r, dir_name := c_dir_name r,
                 author := c_author r, publish_time := c_publish_time r,
                 errors := (if c_errors r \<noteq> [] then c_errors r else errors a)\<rparr>
           | Inl e \<Rightarrow> a\<lparr>status := ''failed'', errors := errors a @ [e]\<rparr>))"

text \<open>The loop over the work queue: every record is processed, whatever happened to
  the records before it. Each record comes with the behaviour of the browser and of
  the extractor for its URL.\<close>

fun crawl_loop ::
  "(article \<times> (nat \<Rightarrow> cdp_outcome) \<times> (pystr \<Rightarrow> string + crawl_result)) list \<Rightarrow> article list" where
  "crawl_loop [] = []"
| "crawl_loop ((a, cdp, extract) # rest) = crawl_record cdp extract a # crawl_loop rest"

definition sample_result :: crawl_result where
  "sample_result =
     \<lparr>c_title = ''T'', c_dir_name = ''0001_T'', c_author = ''A'', c_publish_time = ''2024-01-01'',
      c_errors = []\<rparr>"

section \<open>Image download (wechat\_extract.py)\<close>

definition IMG_RETRY :: nat where "IMG_RETRY = 2"

text \<open>
  The library calls behind the file name of an image are parameters of the model:
  \<^verbatim>\<open>hashlib.md5(src.encode()).hexdigest()\<close>, \<^verbatim>\<open>urlparse(url).path.lower()\<close>,
  the group of \<^verbatim>\<open>re.search(r"wx_fmt=(\w+)", url)\<close> and \<^verbatim>\<open>str.lower\<close>.

  Three of the calls that the loop makes for a node before it enters the \<^verbatim>\<open>try\<close>
  block can raise, and nothing in \<open>download_images\<close> catches that: \<^verbatim>\<open>src.encode()\<close>
  (a source with a lone surrogate), \<^verbatim>\<open>urlparse(url)\<close> in \<open>_img_ext\<close> (it raises
  \<^verbatim>\<open>ValueError\<close> on a malformed host such as \<^verbatim>\<open>http://[\<close>), and
  \<^verbatim>\<open>filepath.exists()\<close> and \<^verbatim>\<open>filepath.stat()\<close> (an operating-system error on the
  file of that name). \<open>encode_error\<close>, \<open>urlparse_error\<close> and \<open>stat_error\<close> give the
  exception raised, if any; \<open>md5_hexdigest\<close> and \<open>url_path_lower\<close> give the values where
  nothing is raised.
\<close>

record img_lib =
  md5_hexdigest :: "string \<Rightarrow> string"
  url_path_lower :: "string \<Rightarrow> string"
  wx_fmt_group :: "string \<Rightarrow> string option"
  str_lower :: "string \<Rightarrow> string"
  encode_error :: "string \<Rightarrow> string option"
  urlparse_error :: "string \<Rightarrow> string option"
  stat_error :: "string \<Rightarrow> string option"

subsection \<open>\_img\_ext\<close>

definition ext_of_content_type :: "img_lib \<Rightarrow> string \<Rightarrow> string option" where
  "ext_of_content_type L content_type =
     (if content_type = [] then None
      else let ct = str_lower L content_type
           in if sublist ''png'' ct then Some ''.png''
              else if sublist ''gif'' ct then Some ''.gif''
              else if sublist ''webp'' ct then Some ''.webp''
              else if sublist ''svg'' ct then Some ''.svg''
              else if sublist ''jpeg'' ct \<or> sublist ''jpg'' ct then Some ''.jpg''
              else None)"

definition img_ext :: "img_lib \<Rightarrow> string \<Rightarrow> string \<Rightarrow> string" where
  "img_ext L u content_type =
     (case ext_of_content_type L content_type of
        Some ext \<Rightarrow> ext
      | None \<Rightarrow>
          (case find (\<lambda>ext. sublist ext (url_path_lower L u))
                  [''.png'', ''.gif'', ''.webp'', ''.svg'', ''.jpg'', ''.jpeg''] of
             Some ext \<Rightarrow> ext
           | None \<Rightarrow>
               (case wx_fmt_group L u of
                  Some g \<Rightarrow> (let f = str_lower L g in if f \<noteq> ''jpeg'' then ''.'' @ f else ''.jpg'')
                | None \<Rightarrow> ''.jpg'')))"

subsection \<open>The file name\<close>

text \<open>\<^verbatim>\<open>f"img_{img_counter:03d}_{url_hash}{ext}"\<close>, with the decimal digits of the counter
  padded with zeros to three places.\<close>

fun decimal :: "nat \<Rightarrow> string" where
  "decimal n = (if n < 10 then [''0123456789'' ! n] else decimal (n div 10) @ [''0123456789'' ! (n mod 10)])"

declare decimal.simps [simp del]

definition pad3 :: "string \<Rightarrow> string" where
  "pad3 s = replicate (3 - length s) (CHR ''0'') @ s"

definition img_filename :: "img_lib \<Rightarrow> nat \<Rightarrow> string \<Rightarrow> string" where
  "img_filename L counter src =
     ''img_'' @ pad3 (decimal counter) @ ''_'' @ take 8 (md5_hexdigest L src) @ img_ext L src []"

subsection \<open>download\_images\<close>

text \<open>
  The counters of the statistics dictionary are Python integers. The state of a run
  holds the files of the assets directory (name to content), the statistics, the
  counter of images, and the trace of the effects: the URLs requested with
  \<^verbatim>\<open>sess.get\<close>, the files written with \<^verbatim>\<open>write_bytes\<close> and the seconds slept.
\<close>

record img_stats =
  total :: int
  ok :: int
  failed :: int
  skipped :: int
  bytes :: int

record dl_state =
  files :: "string \<rightharpoonup> string"
  stats :: img_stats
  img_counter :: nat
  requests :: "string list"
  written :: "(string \<times> string) list"
  naps :: "nat list"

text \<open>
  One request: an exception is raised (by \<^verbatim>\<open>sess.get\<close>, \<^verbatim>\<open>raise_for_status\<close> or
  while reading the content), or the body is read. The network is an oracle that gives
  the outcome of the \<open>k\<close>-th request of the run.
\<close>

datatype response = RequestFailed | Body string

definition nap :: "nat \<Rightarrow> dl_state \<Rightarrow> dl_state" where
  "nap attempt s = (if attempt < IMG_RETRY then s\<lparr>naps := naps s @ [1 * (attempt + 1)]\<rparr> else s)"

text \<open>
  \<^verbatim>\<open>
  for attempt in range(IMG_RETRY + 1):
      try:
          resp = sess.get(src, ...); resp.raise_for_status(); data = resp.content
          if len(data) < 100: raise ValueError(...)
          filepath.write_bytes(data)
          img["src"] = f"assets/{filename}"
          stats["ok"] += 1; stats["bytes"] += len(data)
          ok = True; break
      except Exception:
          if attempt < IMG_RETRY: time.sleep(1 * (attempt + 1))
          continue
  \<close>
  The function returns the flag \<open>ok\<close>, the \<open>src\<close> attribute of the node and the state.
  An exception of \<^verbatim>\<open>write_bytes\<close> is caught by the same \<^verbatim>\<open>except\<close> as one of the
  request, and is counted with the failed requests.
\<close>

fun try_download ::
  "(nat \<Rightarrow> response) \<Rightarrow> string \<Rightarrow> string \<Rightarrow> nat list \<Rightarrow> dl_state \<Rightarrow> bool \<times> string \<times> dl_state" where
  "try_download net src filename [] s = (False, src, s)"
| "try_download net src filename (attempt # rest) s =
     (let s1 = s\<lparr>requests := requests s @ [src]\<rparr>
      in case net (length (requests s)) of
           RequestFailed \<Rightarrow> try_download net src filename rest (nap attempt s1)
         | Body data \<Rightarrow>
             if length data < 100 then try_download net src filename rest (nap attempt s1)
             else (True, ''assets/'' @ filename,
                   s1\<lparr>files := (files s1)(filename \<mapsto> data),
                      written := written s1 @ [(filename, data)],
                      stats := (stats s1)\<lparr>ok := ok (stats s1) + 1,
                                           bytes := bytes (stats s1) + int (length data)\<rparr>\<rparr>))"

text \<open>
  The body of \<^verbatim>\<open>for img in content_soup.find_all("img")\<close> for one node, given the
  value of \<^verbatim>\<open>img.get("src", "")\<close>. It returns the \<open>src\<close> attribute after the step and
  the state, or the exception that leaves the loop.
  \<^verbatim>\<open>
  src = img.get("src", "")
  if not src or not src.startswith("http"): continue
  stats["total"] += 1; img_counter += 1
  url_hash = hashlib.md5(src.encode()).hexdigest()[:8]
  ext = _img_ext(src)
  filename = f"img_{img_counter:03d}_{url_hash}{ext}"
  filepath = assets_dir / filename
  if filepath.exists() and filepath.stat().st_size > 0:
      img["src"] = f"assets/{filename}"; stats["skipped"] += 1; stats["ok"] += 1
      continue
  ok = False
  for attempt in range(IMG_RETRY + 1): ...
  if not ok:
      stats["failed"] += 1
      img["src"] = src
  \<close>
\<close>

definition file_present :: "dl_state \<Rightarrow> string \<Rightarrow> bool" where
  "file_present s filename = (case files s filename of None \<Rightarrow> False | Some data \<Rightarrow> 0 < length data)"

text \<open>The exception of the calls before the \<^verbatim>\<open>try\<close> block, in the order of the
  calls: encoding the source, parsing the URL, looking the file up.\<close>

definition pre_try_error :: "img_lib \<Rightarrow> string \<Rightarrow> nat \<Rightarrow> string option" where
  "pre_try_error L src counter =
     (case encode_error L src of
        Some e \<Rightarrow> Some e
      | None \<Rightarrow>
          (case urlparse_error L src of
             Some e \<Rightarrow> Some e
           | None \<Rightarrow> stat_error L (img_filename L counter src)))"

definition image_step ::
  "img_lib \<Rightarrow> (nat \<Rightarrow> response) \<Rightarrow> string \<Rightarrow> dl_state \<Rightarrow> string + string \<times> dl_state" where
  "image_step L net src s =
     (if src = [] \<or> \<not> prefix ''http'' src then Inr (src, s)
      else
        let s1 = s\<lparr>stats := (stats s)\<lparr>total := total (stats s) + 1\<rparr>,
                   img_counter := img_counter s + 1\<rparr>;
            filename = img_filename L (img_counter s1) src
        in case pre_try_error L src (img_counter s1) of
             Some e \<Rightarrow> Inl e
           | None \<Rightarrow>
               if file_present s1 filename
               then Inr (''assets/'' @ filename,
                         s1\<lparr>stats := (stats s1)\<lparr>skipped := skipped (stats s1) + 1,
                                                 ok := ok (stats s1) + 1\<rparr>\<rparr>)
               else
                 (case try_download net src filename [0..<IMG_RETRY + 1] s1 of
                    (True, img_src, s2) \<Rightarrow> Inr (img_src, s2)
                  | (False, img_src, s2) \<Rightarrow>
                      Inr (src, s2\<lparr>stats := (stats s2)\<lparr>failed := failed (stats s2) + 1\<rparr>\<rparr>)))"

text \<open>The loop over the nodes: an exception of a step ends it.\<close>

fun images_loop ::
  "img_lib \<Rightarrow> (nat \<Rightarrow> response) \<Rightarrow> string list \<Rightarrow> dl_state \<Rightarrow> string + string list \<times> dl_state" where
  "images_loop L net [] s = Inr ([], s)"
| "images_loop L net (src # srcs) s =
     (case image_step L net src s of
        Inl e \<Rightarrow> Inl e
      | Inr (src', s1) \<Rightarrow>
          (case images_loop L net srcs s1 of
             Inl e \<Rightarrow> Inl e
           | Inr (srcs', s2) \<Rightarrow> Inr (src' # srcs', s2)))"

text \<open>
  \<open>download_images\<close> on the image nodes of a tree, given by their \<open>src\<close> attributes in
  document order, and an assets directory. \<^verbatim>\<open>assets_dir.mkdir\<close> comes first and is
  not guarded: when it raises, so does the function. The result is the \<open>src\<close>
  attributes after the run and the final state, whose \<open>stats\<close> is the dictionary
  returned, or the exception raised.
\<close>

definition start_state :: "(string \<rightharpoonup> string) \<Rightarrow> dl_state" where
  "start_state fs =
     \<lparr>files = fs, stats = \<lparr>total = 0, ok = 0, failed = 0, skipped = 0, bytes = 0\<rparr>,
      img_counter = 0, requests = [], written = [], naps = []\<rparr>"

definition download_images ::
  "img_lib \<Rightarrow> (nat \<Rightarrow> response) \<Rightarrow> string option \<Rightarrow> string list \<Rightarrow> (string \<rightharpoonup> string)
     \<Rightarrow> string + string list \<times> dl_state" where
  "download_images L net mkdir_error srcs fs =
     (case mkdir_error of
        Some e \<Rightarrow> Inl e
      | None \<Rightarrow> images_loop L net srcs (start_state fs))"

text \<open>A body that the loop accepts: at least 100 bytes.\<close>

fun usable :: "response \<Rightarrow> bool" where
  "usable RequestFailed = False"
| "usable (Body data) = (100 \<le> length data)"

subsection \<open>Auxiliary notions for the image loop\<close>

text \<open>A node that the loop passes over: no source, or a source that is not remote.\<close>

definition untouched :: "string \<Rightarrow> bool" where
  "untouched src \<longleftrightarrow> src = [] \<or> \<not> prefix ''http'' src"

definition next_filename :: "img_lib \<Rightarrow> dl_state \<Rightarrow> string \<Rightarrow> string" where
  "next_filename L s src = img_filename L (img_counter s + 1) src"

text \<open>The four ways one image node is handled: passed over, found on disk, fetched,
  given up.\<close>

definition step_outcome :: "img_lib \<Rightarrow> string \<Rightarrow> dl_state \<Rightarrow> string \<Rightarrow> dl_state \<Rightarrow> bool" where
  "step_outcome L src s src' s' \<longleftrightarrow>
     (untouched src \<and> src' = src \<and> s' = s)
   \<or> (\<not> untouched src \<and> file_present s (next_filename L s src)
        \<and> src' = ''assets/'' @ next_filename L s src
        \<and> stats s' = (stats s)\<lparr>total := total (stats s) + 1, skipped := skipped (stats s) + 1,
                                 ok := ok (stats s) + 1\<rparr>
        \<and> files s' = files s \<and> written s' = written s \<and> requests s' = requests s
        \<and> img_counter s' = img_counter s + 1)
   \<or> (\<not> untouched src \<and> \<not> file_present s (next_filename L s src)
        \<and> src' = ''assets/'' @ next_filename L s src
        \<and> (\<exists>data j. 100 \<le> length data
              \<and> stats s' = (stats s)\<lparr>total := total (stats s) + 1, ok := ok (stats s) + 1,
                                       bytes := bytes (stats s) + int (length data)\<rparr>
              \<and> files s' = (files s)(next_filename L s src \<mapsto> data)
              \<and> written s' = written s @ [(next_filename L s src, data)]
              \<and> requests s' = requests s @ replicate (Suc j) src)
        \<and> img_counter s' = img_counter s + 1)
   \<or> (\<not> untouched src \<and> \<not> file_present s (next_filename L s src)
        \<and> src' = src
        \<and> stats s' = (stats s)\<lparr>total := total (stats s) + 1, failed := failed (stats s) + 1\<rparr>
        \<and> files s' = files s \<and> written s' = written s
        \<and> requests s' = requests s @ replicate (IMG_RETRY + 1) src
        \<and> img_counter s' = img_counter s + 1)"

text \<open>The relation between the counters and the files written by the run.\<close>

definition stats_inv :: "dl_state \<Rightarrow> bool" where
  "stats_inv s \<longleftrightarrow>
     total (stats s) = ok (stats s) + failed (stats s)
   \<and> skipped (stats s) \<le> ok (stats s)
   \<and> 0 \<le> total (stats s) \<and> 0 \<le> ok (stats s) \<and> 0 \<le> failed (stats s)
   \<and> 0 \<le> skipped (stats s) \<and> 0 \<le> bytes (stats s)
   \<and> bytes (stats s) = sum_list (map (\<lambda>w. int (length (snd w))) (written s))
   \<and> ok (stats s) = skipped (stats s) + int (length (written s))"



text \<open>None of the calls before the \<^verbatim>\<open>try\<close> block raises for a node of the list,
  starting from counter \<open>c\<close>; and the number of nodes with a remote source.\<close>

fun pre_try_clear :: "img_lib \<Rightarrow> nat \<Rightarrow> string list \<Rightarrow> bool" where
  "pre_try_clear L c [] = True"
| "pre_try_clear L c (src # srcs) =
     (if untouched src then pre_try_clear L c srcs
      else pre_try_error L src (c + 1) = None \<and> pre_try_clear L (c + 1) srcs)"

definition remote_count :: "string list \<Rightarrow> nat" where
  "remote_count srcs = length (filter (\<lambda>src. \<not> untouched src) srcs)"

text \<open>Sample library functions, image and responses.\<close>

definition sample_lib :: img_lib where
  "sample_lib =
     \<lparr>md5_hexdigest = (\<lambda>u. if u = ''http://mmbiz.qpic.cn/a.png''
                              then ''9ab7859dd0414e0bdbe9ce531e06d981''
                              else ''00000000000000000000000000000000''),
      url_path_lower = (\<lambda>u. if u = ''http://mmbiz.qpic.cn/a.png'' then ''/a.png'' else ''/''),
      wx_fmt_group = (\<lambda>u. None),
      str_lower = (\<lambda>s. s),
      encode_error = (\<lambda>u. None),
      urlparse_error = (\<lambda>u. if u = ''http://['' then Some ''Invalid IPv6 URL'' else None),
      stat_error = (\<lambda>f. None)\<rparr>"

definition sample_src :: string where
  "sample_src = ''http://mmbiz.qpic.cn/a.png''"

definition sample_data :: string where
  "sample_data = replicate 100 (CHR ''x'')"

definition sample_net :: "nat \<Rightarrow> response" where
  "sample_net k = (if k = 0 then Body ''tiny'' else Body sample_data)"




subsection \<open>The state after one fetched node\<close>

text \<open>
  The state the loop is in after a remote node whose \<open>IMG_RETRY + 1\<close> requests all
  failed: the node counted in \<open>total\<close> and \<open>failed\<close>, one request for each attempt, a
  sleep after every attempt but the last, no file written.
\<close>

definition given_up :: "string \<Rightarrow> dl_state \<Rightarrow> dl_state" where
  "given_up src s =
     s\<lparr>stats := (stats s)\<lparr>total := total (stats s) + 1, failed := failed (stats s) + 1\<rparr>,
       img_counter := img_counter s + 1,
       requests := requests s @ replicate (IMG_RETRY + 1) src,
       naps := naps s @ map Suc [0..<IMG_RETRY]\<rparr>"

text \<open>
  The state after a remote node whose attempt \<open>j\<close> was the first with a usable body
  \<open>data\<close>: the node counted in \<open>total\<close> and \<open>ok\<close>, its size added to \<open>bytes\<close>,
  \<open>j + 1\<close> requests, a sleep after each failed attempt, the file written.
\<close>

definition fetched :: "img_lib \<Rightarrow> string \<Rightarrow> nat \<Rightarrow> string \<Rightarrow> dl_state \<Rightarrow> dl_state" where
  "fetched L src j data s =
     s\<lparr>stats := (stats s)\<lparr>total := total (stats s) + 1, ok := ok (stats s) + 1,
                           bytes := bytes (stats s) + int (length data)\<rparr>,
       img_counter := img_counter s + 1,
       requests := requests s @ replicate (Suc j) src,
       naps := naps s @ map Suc [0..<j],
       files := (files s)(next_filename L s src \<mapsto> data),
       written := written s @ [(next_filename L s src, data)]\<rparr>"

text \<open>The number of remote nodes whose source is the same after the loop as before.\<close>

definition kept_remote :: "string list \<Rightarrow> string list \<Rightarrow> nat" where
  "kept_remote srcs srcs' =
     length (filter (\<lambda>p. \<not> untouched (fst p) \<and> snd p = fst p) (zip srcs srcs'))"

text \<open>A network whose first three responses are too small.\<close>

definition slow_net :: "nat \<Rightarrow> response" where
  "slow_net k = (if k < 3 then Body ''tiny'' else Body sample_data)"
section \<open>The post-pass of html\_to\_markdown (wechat\_extract.py)\<close>

text \<open>
  \<^verbatim>\<open>
  md = _soup_to_markdown(content_soup)
  md = re.sub(r'\n{3,}', '\n\n', md)
  md = re.sub(r'[ \t]+\n', '\n', md)
  md = md.strip()
  \<close>
  The rendered body \<open>md\<close> is the input of the model. Newline is the code point 10,
  space 32 and tab 9.
\<close>

text \<open>
  \<^verbatim>\<open>re.sub(r'\n{3,}', '\n\n', md)\<close>: the matches are the maximal runs of three or
  more newlines, from left to right. The scanner counts the newlines of the run it is
  in and emits the run, or two newlines in its place, when the run ends.
\<close>

definition emit_newlines :: "nat \<Rightarrow> pystr" where
  "emit_newlines n = replicate (if 3 \<le> n then 2 else n) 10"

fun scan_newlines :: "nat \<Rightarrow> pystr \<Rightarrow> pystr" where
  "scan_newlines n [] = emit_newlines n"
| "scan_newlines n (c # cs) =
     (if c = 10 then scan_newlines (Suc n) cs
      else emit_newlines n @ c # scan_newlines 0 cs)"

definition sub_newlines :: "pystr \<Rightarrow> pystr" where
  "sub_newlines md = scan_newlines 0 md"

text \<open>
  \<^verbatim>\<open>re.sub(r'[ \t]+\n', '\n', md)\<close>: a match is a maximal run of spaces and tabs
  that a newline follows. The scanner holds the run of spaces and tabs it is in and
  drops it when a newline comes next.
\<close>

definition blank_char :: "nat \<Rightarrow> bool" where
  "blank_char c \<longleftrightarrow> c = 32 \<or> c = 9"

fun scan_trailing :: "pystr \<Rightarrow> pystr \<Rightarrow> pystr" where
  "scan_trailing ws [] = ws"
| "scan_trailing ws (c # cs) =
     (if blank_char c then scan_trailing (ws @ [c]) cs
      else if c = 10 then 10 # scan_trailing [] cs
      else ws @ c # scan_trailing [] cs)"

definition sub_trailing :: "pystr \<Rightarrow> pystr" where
  "sub_trailing md = scan_trailing [] md"

text \<open>
  \<^verbatim>\<open>str.strip()\<close> removes the characters for which \<^verbatim>\<open>str.isspace\<close> holds from
  both ends.
\<close>

definition py_space :: "nat \<Rightarrow> bool" where
  "py_space c \<longleftrightarrow>
     (9 \<le> c \<and> c \<le> 13) \<or> (28 \<le> c \<and> c \<le> 32) \<or> c = 0x85 \<or> c = 0xA0 \<or> c = 0x1680
     \<or> (0x2000 \<le> c \<and> c \<le> 0x200A) \<or> c = 0x2028 \<or> c = 0x2029 \<or> c = 0x202F
     \<or> c = 0x205F \<or> c = 0x3000"

definition strip :: "pystr \<Rightarrow> pystr" where
  "strip s = rev (dropWhile py_space (rev (dropWhile py_space s)))"

text \<open>
  \<^verbatim>\<open>
  header = f"# {title}\n\n"
  meta_parts = []
  if author: meta_parts.append(f"(author label): {author}")
  if publish_time: meta_parts.append(f"(date label): {publish_time}")
  if source_url: meta_parts.append(f"(source label): {source_url}")
  if meta_parts: header += "\n".join(meta_parts) + "\n"
  header += "\n---\n\n"
  return header + md
  \<close>
  The labels are U+4F5C U+8005, U+53D1 U+5E03 and U+6765 U+6E90, each followed by a colon
  and a space.
\<close>

definition author_label :: pystr where "author_label = [0x4F5C, 0x8005, 58, 32]"
definition date_label :: pystr where "date_label = [0x53D1, 0x5E03, 58, 32]"
definition source_label :: pystr where "source_label = [0x6765, 0x6E90, 58, 32]"

fun join_newline :: "pystr list \<Rightarrow> pystr" where
  "join_newline [] = []"
| "join_newline [p] = p"
| "join_newline (p # ps) = p @ 10 # join_newline ps"

definition meta_parts :: "pystr \<Rightarrow> pystr \<Rightarrow> pystr \<Rightarrow> pystr list" where
  "meta_parts auth ptime src_url =
     (if auth \<noteq> [] then [author_label @ auth] else [])
     @ (if ptime \<noteq> [] then [date_label @ ptime] else [])
     @ (if src_url \<noteq> [] then [source_label @ src_url] else [])"

definition md_header :: "pystr \<Rightarrow> pystr \<Rightarrow> pystr \<Rightarrow> pystr \<Rightarrow> pystr" where
  "md_header ttl auth src_url ptime =
     (let header = [35, 32] @ ttl @ [10, 10];
          parts = meta_parts auth ptime src_url;
          header = (if parts \<noteq> [] then header @ join_newline parts @ [10] else header)
      in header @ [10, 45, 45, 45, 10, 10])"

definition html_to_markdown :: "pystr \<Rightarrow> pystr \<Rightarrow> pystr \<Rightarrow> pystr \<Rightarrow> pystr \<Rightarrow> pystr" where
  "html_to_markdown md ttl auth src_url ptime =
     md_header ttl auth src_url ptime @ strip (sub_trailing (sub_newlines md))"

text \<open>The lines of a text, and the lengths of its maximal runs of empty lines.\<close>

fun split_lines :: "pystr \<Rightarrow> pystr \<Rightarrow> pystr list" where
  "split_lines cur [] = [cur]"
| "split_lines cur (c # cs) = (if c = 10 then cur # split_lines [] cs else split_lines (cur @ [c]) cs)"

fun blank_runs :: "nat \<Rightarrow> pystr list \<Rightarrow> nat list" where
  "blank_runs n [] = (if 0 < n then [n] else [])"
| "blank_runs n (l # ls) =
     (if l = [] then blank_runs (Suc n) ls
      else (if 0 < n then [n] else []) @ blank_runs 0 ls)"

text \<open>No space or tab stands directly before a newline.\<close>

fun no_blank_before_newline :: "pystr \<Rightarrow> bool" where
  "no_blank_before_newline (a # b # cs) =
     (\<not> (blank_char a \<and> b = 10) \<and> no_blank_before_newline (b # cs))"
| "no_blank_before_newline cs = True"

section \<open>The extractor (wechat\_extract.py, extract\_article)\<close>

text \<open>
  The texts of this part are Python strings, lists of code points; \<open>asc\<close> gives the
  code points of an ASCII literal. An exception is the value \<open>Inl e\<close>, with \<open>e\<close> the
  text of \<^verbatim>\<open>str(e)\<close>.
\<close>

definition asc :: "string \<Rightarrow> pystr" where
  "asc s = map of_char s"

text \<open>
  The regular expressions, \<^verbatim>\<open>html.unescape\<close>, \<^verbatim>\<open>time\<close> and the BeautifulSoup
  parser are library code: what they report about a page is a parameter. A regular
  expression search gives the text of its group or nothing; a query of the parsed page
  gives the text found or nothing, or raises. \<open>clean_content\<close> stands for the five
  passes over the content container (removal of scripts, comments and hidden elements,
  lazy images, video and audio placeholders), which work on the parser's tree.
\<close>

record 's page_lib =
  re_msg_title :: "pystr \<Rightarrow> pystr option"
  re_nickname :: "pystr \<Rightarrow> pystr option"
  re_ct :: "pystr \<Rightarrow> int option"
  re_msg_source_url :: "pystr \<Rightarrow> pystr option"
  html_unescape :: "pystr \<Rightarrow> pystr"
  select_h1_title :: "pystr \<Rightarrow> pystr + pystr option"
  select_nickname :: "pystr \<Rightarrow> pystr + pystr option"
  strftime_localtime :: "int \<Rightarrow> pystr + pystr"
  find_js_content :: "pystr \<Rightarrow> pystr + 's option"
  select_rich_media_content :: "pystr \<Rightarrow> pystr + 's option"
  clean_content :: "'s \<Rightarrow> pystr + 's"
  empty_soup :: "'s"
  soup_img_srcs :: "'s \<Rightarrow> string list"
  is_word :: "nat \<Rightarrow> bool"
  path_join :: "pystr \<Rightarrow> pystr \<Rightarrow> pystr"

subsection \<open>Metadata\<close>

text \<open>
  \<^verbatim>\<open>
  m = re.search(r"var msg_title = [\"'](.+?)[\"']", raw_html)
  if m:
      title = m.group(1).split("'")[0].split('"')[0]
      return html.unescape(title).strip()
  soup = BeautifulSoup(raw_html, "html.parser")
  h1 = soup.select_one('h1.rich_media_title')
  if h1: return h1.get_text(strip=True)
  return "Untitled"
  \<close>
  The apostrophe is the code point 39 and the double quote 34.
\<close>

definition extract_title :: "'s page_lib \<Rightarrow> pystr \<Rightarrow> pystr + pystr" where
  "extract_title L raw_html =
     (case re_msg_title L raw_html of
        Some g \<Rightarrow> Inr (strip (html_unescape L (takeWhile (\<lambda>c. c \<noteq> 34) (takeWhile (\<lambda>c. c \<noteq> 39) g))))
      | None \<Rightarrow>
          (case select_h1_title L raw_html of
             Inl e \<Rightarrow> Inl e
           | Inr (Some t) \<Rightarrow> Inr t
           | Inr None \<Rightarrow> Inr (asc ''Untitled'')))"

definition extract_author :: "'s page_lib \<Rightarrow> pystr \<Rightarrow> pystr + pystr" where
  "extract_author L raw_html =
     (case re_nickname L raw_html of
        Some g \<Rightarrow> Inr (strip (html_unescape L g))
      | None \<Rightarrow>
          (case select_nickname L raw_html of
             Inl e \<Rightarrow> Inl e
           | Inr (Some t) \<Rightarrow> Inr t
           | Inr None \<Rightarrow> Inr []))"

definition extract_publish_time :: "'s page_lib \<Rightarrow> pystr \<Rightarrow> pystr + pystr" where
  "extract_publish_time L raw_html =
     (case re_ct L raw_html of
        Some ts \<Rightarrow> strftime_localtime L ts
      | None \<Rightarrow> Inr [])"

definition extract_source_url :: "'s page_lib \<Rightarrow> pystr \<Rightarrow> pystr + pystr" where
  "extract_source_url L raw_html =
     (case re_msg_source_url L raw_html of Some u \<Rightarrow> Inr u | None \<Rightarrow> Inr [])"

text \<open>The four calls of the first \<^verbatim>\<open>try\<close> block, in order; the first exception ends
  the block.\<close>

definition metadata :: "'s page_lib \<Rightarrow> pystr \<Rightarrow> pystr + (pystr \<times> pystr \<times> pystr \<times> pystr)" where
  "metadata L raw_html =
     (case extract_title L raw_html of
        Inl e \<Rightarrow> Inl e
      | Inr t \<Rightarrow>
          (case extract_author L raw_html of
             Inl e \<Rightarrow> Inl e
           | Inr a \<Rightarrow>
               (case extract_publish_time L raw_html of
                  Inl e \<Rightarrow> Inl e
                | Inr p \<Rightarrow>
                    (case extract_source_url L raw_html of
                       Inl e \<Rightarrow> Inl e
                     | Inr u \<Rightarrow> Inr (t, a, p, u)))))"

subsection \<open>The content container\<close>

text \<open>
  \<^verbatim>\<open>
  content_div = soup.find(id="js_content")
  if not content_div: content_div = soup.select_one('.rich_media_content')
  if not content_div: return BeautifulSoup("", "html.parser")
  ... (the five passes) ...
  return content_div
  \<close>
\<close>

definition extract_content_soup :: "'s page_lib \<Rightarrow> pystr \<Rightarrow> pystr + 's" where
  "extract_content_soup L raw_html =
     (case find_js_content L raw_html of
        Inl e \<Rightarrow> Inl e
      | Inr (Some content_div) \<Rightarrow> clean_content L content_div
      | Inr None \<Rightarrow>
          (case select_rich_media_content L raw_html of
             Inl e \<Rightarrow> Inl e
           | Inr (Some content_div) \<Rightarrow> clean_content L content_div
           | Inr None \<Rightarrow> Inr (empty_soup L)))"

subsection \<open>safe\_dirname\<close>

text \<open>
  \<^verbatim>\<open>
  safe = re.sub(r'[^\w\u4e00-\u9fff-]', '_', title)[:50].rstrip('_')
  if not safe: safe = "untitled"
  if seq > 0: return f"{seq:04d}_{safe}"
  return safe
  \<close>
  The underscore is the code point 95 and the hyphen 45.
\<close>

definition safe_dirname :: "'s page_lib \<Rightarrow> pystr \<Rightarrow> int \<Rightarrow> pystr" where
  "safe_dirname L ttl sq =
     (let kept = map (\<lambda>c. if is_word L c \<or> (0x4E00 \<le> c \<and> c \<le> 0x9FFF) \<or> c = 45 then c else 95) ttl;
          safe = rev (dropWhile (\<lambda>c. c = 95) (rev (take 50 kept)));
          safe = (if safe = [] then asc ''untitled'' else safe)
      in if 0 < sq
         then asc (replicate (4 - length (decimal (nat sq))) (CHR ''0'') @ decimal (nat sq)) @ 95 # safe
         else safe)"

subsection \<open>extract\_article\<close>

record extraction =
  r_title :: pystr
  r_author :: pystr
  r_publish_time :: pystr
  r_source_url :: pystr
  r_dir_name :: pystr
  r_html_path :: pystr
  r_md_path :: pystr
  r_img_stats :: "img_stats option"
  r_errors :: "pystr list"

text \<open>
  The outcomes of the file and network operations of one call: creating the article
  directory, writing \<^verbatim>\<open>raw.html\<close>, the run of \<open>download_images\<close> (its library
  and system calls, network, the outcome of creating the assets directory and the
  files there), building and writing the HTML document, and building and writing the
  Markdown document. \<open>None\<close> is success, \<open>Some e\<close> a raised exception.
\<close>

record io_env =
  article_mkdir_error :: "pystr option"
  write_raw_error :: "pystr option"
  images_lib :: img_lib
  images_net :: "nat \<Rightarrow> response"
  assets_mkdir_error :: "string option"
  assets_files :: "string \<rightharpoonup> string"
  build_html_error :: "pystr option"
  build_markdown_error :: "pystr option"

definition add_error :: "pystr \<Rightarrow> extraction \<Rightarrow> extraction" where
  "add_error note r = r\<lparr>r_errors := r_errors r @ [note]\<rparr>"

definition empty_result :: extraction where
  "empty_result =
     \<lparr>r_title = [], r_author = [], r_publish_time = [], r_source_url = [], r_dir_name = [],
      r_html_path = [], r_md_path = [], r_img_stats = None, r_errors = []\<rparr>"

text \<open>The part of the function up to the parsing of the content: the result with the
  metadata, or with the defaults and a note when the metadata block raised.\<close>

definition with_metadata :: "'s page_lib \<Rightarrow> pystr \<Rightarrow> extraction" where
  "with_metadata L raw_html =
     (case metadata L raw_html of
        Inr (t, a, p, u) \<Rightarrow>
          empty_result\<lparr>r_title := t, r_author := a, r_publish_time := p, r_source_url := u\<rparr>
      | Inl e \<Rightarrow>
          (add_error (asc ''metadata extraction: '' @ e) empty_result)
            \<lparr>r_title := asc ''Untitled'', r_author := [], r_publish_time := [], r_source_url := []\<rparr>)"

text \<open>The steps after the article directory exists; each is in a \<^verbatim>\<open>try\<close> block of
  its own.\<close>

definition save_raw :: "io_env \<Rightarrow> extraction \<Rightarrow> extraction" where
  "save_raw E r =
     (case write_raw_error E of Some e \<Rightarrow> add_error (asc ''save raw.html: '' @ e) r | None \<Rightarrow> r)"

definition images_step :: "io_env \<Rightarrow> string list \<Rightarrow> bool \<Rightarrow> extraction \<Rightarrow> extraction" where
  "images_step E srcs download_img r =
     (if download_img
      then (case download_images (images_lib E) (images_net E) (assets_mkdir_error E) srcs (assets_files E) of
              Inl e \<Rightarrow> add_error (asc ''image download: '' @ asc e) r
            | Inr (srcs', s) \<Rightarrow> r\<lparr>r_img_stats := Some (stats s)\<rparr>)
      else r)"

definition html_step :: "io_env \<Rightarrow> pystr \<Rightarrow> extraction \<Rightarrow> extraction" where
  "html_step E html_path r =
     (case build_html_error E of
        Some e \<Rightarrow> add_error (asc ''build HTML: '' @ e) r
      | None \<Rightarrow> r\<lparr>r_html_path := html_path\<rparr>)"

definition markdown_step :: "io_env \<Rightarrow> pystr \<Rightarrow> extraction \<Rightarrow> extraction" where
  "markdown_step E md_path r =
     (case build_markdown_error E of
        Some e \<Rightarrow> add_error (asc ''build Markdown: '' @ e) r
      | None \<Rightarrow> r\<lparr>r_md_path := md_path\<rparr>)"

text \<open>
  The whole function. \<^verbatim>\<open>article_dir.mkdir(parents=True, exist_ok=True)\<close> is outside
  every \<^verbatim>\<open>try\<close> block: when it raises, the exception leaves the function.
\<close>

definition extract_article ::
  "'s page_lib \<Rightarrow> io_env \<Rightarrow> pystr \<Rightarrow> pystr \<Rightarrow> int \<Rightarrow> bool \<Rightarrow> pystr + extraction" where
  "extract_article L E raw_html output_dir sq download_img =
     (let result = with_metadata L raw_html
      in case extract_content_soup L raw_html of
           Inl e \<Rightarrow> Inr (add_error (asc ''content extraction: '' @ e) result)
         | Inr content_soup \<Rightarrow>
             (let dn = safe_dirname L (r_title result) sq;
                  result = result\<lparr>r_dir_name := dn\<rparr>;
                  article_dir = path_join L output_dir dn
              in case article_mkdir_error E of
                   Some e \<Rightarrow> Inl e
                 | None \<Rightarrow>
                     Inr (markdown_step E (path_join L article_dir (asc ''article.md''))
                           (html_step E (path_join L article_dir (asc ''article.html''))
                             (images_step E (soup_img_srcs L content_soup) download_img
                               (save_raw E result))))))"

text \<open>
  A page in which the parsers find nothing: no title, author, date or source signal,
  no landmark and no content container. And an environment in which every file
  operation succeeds.
\<close>

definition blank_page_lib :: "unit page_lib" where
  "blank_page_lib =
     \<lparr>re_msg_title = (\<lambda>raw. None), re_nickname = (\<lambda>raw. None), re_ct = (\<lambda>raw. None),
      re_msg_source_url = (\<lambda>raw. None), html_unescape = (\<lambda>t. t),
      select_h1_title = (\<lambda>raw. Inr None), select_nickname = (\<lambda>raw. Inr None),
      strftime_localtime = (\<lambda>ts. Inr (asc ''1970-01-01'')),
      find_js_content = (\<lambda>raw. Inr None), select_rich_media_content = (\<lambda>raw. Inr None),
      clean_content = (\<lambda>s. Inr s), empty_soup = (),
      soup_img_srcs = (\<lambda>s. []), is_word = (\<lambda>c. (48 \<le> c \<and> c \<le> 57) \<or> (65 \<le> c \<and> c \<le> 90)
         \<or> (97 \<le> c \<and> c \<le> 122) \<or> c = 95),
      path_join = (\<lambda>d f. d @ 47 # f)\<rparr>"

definition ok_env :: io_env where
  "ok_env =
     \<lparr>article_mkdir_error = None, write_raw_error = None, images_lib = sample_lib,
      images_net = (\<lambda>k. RequestFailed), assets_mkdir_error = None, assets_files = Map.empty,
      build_html_error = None, build_markdown_error = None\<rparr>"

text \<open>A page whose publish time is beyond the range of the platform's \<^verbatim>\<open>localtime\<close>.\<close>

definition overflow_page_lib :: "unit page_lib" where
  "overflow_page_lib =
     blank_page_lib\<lparr>re_msg_title := (\<lambda>raw. Some (asc ''News'')),
                    re_ct := (\<lambda>raw. Some 99999999999999999999),
                    strftime_localtime := (\<lambda>ts. Inl (asc ''timestamp out of range''))\<rparr>"

text \<open>
  The notes that a call accumulates: one for each block that raised, in the order of
  the blocks, and nothing else.
\<close>

definition later_notes :: "io_env \<Rightarrow> string list \<Rightarrow> bool \<Rightarrow> pystr list" where
  "later_notes E srcs download_img =
     (case write_raw_error E of Some e \<Rightarrow> [asc ''save raw.html: '' @ e] | None \<Rightarrow> [])
     @ (if download_img
        then (case download_images (images_lib E) (images_net E) (assets_mkdir_error E) srcs (assets_files E) of
                Inl e \<Rightarrow> [asc ''image download: '' @ asc e]
              | Inr r \<Rightarrow> [])
        else [])
     @ (case build_html_error E of Some e \<Rightarrow> [asc ''build HTML: '' @ e] | None \<Rightarrow> [])
     @ (case build_markdown_error E of Some e \<Rightarrow> [asc ''build Markdown: '' @ e] | None \<Rightarrow> [])"

definition expected_notes :: "'s page_lib \<Rightarrow> io_env \<Rightarrow> pystr \<Rightarrow> bool \<Rightarrow> pystr list" where
  "expected_notes L E raw_html download_img =
     (case metadata L raw_html of Inl e \<Rightarrow> [asc ''metadata extraction: '' @ e] | Inr m \<Rightarrow> [])
     @ (case extract_content_soup L raw_html of
          Inl e \<Rightarrow> [asc ''content extraction: '' @ e]
        | Inr content_soup \<Rightarrow> later_notes E (soup_img_srcs L content_soup) download_img)"

text \<open>A page whose content container holds one image with a URL that \<^verbatim>\<open>urlparse\<close>
  rejects.\<close>

definition broken_image_page_lib :: "unit page_lib" where
  "broken_image_page_lib =
     blank_page_lib\<lparr>find_js_content := (\<lambda>raw. Inr (Some ())),
                    soup_img_srcs := (\<lambda>s. [''http://[''])\<rparr>"

section \<open>Properties of the manifest operations\<close>

lemma filter_loop_filter:
  "filter_loop force as acc =
     acc @ filter (\<lambda>a. url a \<noteq> [] \<and> (force \<or> \<not> terminal_success (status a))) as"
  by (induction as arbitrary: acc) auto

lemma reset_loop_length: "length (reset_loop is h) = length h"
  by (induction "is" arbitrary: h) auto

lemma reset_loop_outside:
  "i \<notin> set is \<Longrightarrow> reset_loop is h ! i = h ! i"
  by (induction "is" arbitrary: h) auto

lemma reset_loop_inside:
  "i \<in> set is \<Longrightarrow> i < length h \<Longrightarrow>
   reset_loop is h ! i = (h ! i)\<lparr>status := ''pending'', errors := []\<rparr>"
proof (induction "is" arbitrary: h)
  case Nil
  then show ?case by simp
next
  case (Cons j js)
  let ?h = "h[j := (h ! j)\<lparr>status := ''pending'', errors := []\<rparr>]"
  show ?case
  proof (cases "i \<in> set js")
    case True
    then have "reset_loop js ?h ! i = (?h ! i)\<lparr>status := ''pending'', errors := []\<rparr>"
      using Cons.IH [of ?h] Cons.prems by simp
    then show ?thesis using Cons.prems by (cases "i = j") simp_all
  next
    case False
    then have "i = j" using Cons.prems by simp
    then show ?thesis using False Cons.prems by (simp add: reset_loop_outside)
  qed
qed

lemma failed_positions_set:
  "set (failed_positions m) = {i. i < length m \<and> status (m ! i) = ''failed''}"
  by (auto simp: failed_positions_def)

lemma index_by_url_skip:
  "u = [] \<or> u \<notin> url ` set as \<Longrightarrow> index_by_url as p ix u = ix u"
  by (induction as arbitrary: p ix) auto

lemma find_snoc:
  "find P (xs @ [x]) = (case find P xs of Some y \<Rightarrow> Some y | None \<Rightarrow> (if P x then Some x else None))"
  by (induction xs) auto

lemma index_by_url_hit:
  "u \<noteq> [] \<Longrightarrow> u \<in> url ` set as \<Longrightarrow>
   \<exists>j<length as. index_by_url as p ix u = Some (p + j) \<and> url (as ! j) = u
      \<and> find (\<lambda>a. url a = u) (rev as) = Some (as ! j)"
proof (induction as arbitrary: p ix)
  case Nil
  then show ?case by simp
next
  case (Cons a as)
  let ?ix = "if url a \<noteq> [] then ix(url a \<mapsto> p) else ix"
  show ?case
  proof (cases "u \<in> url ` set as")
    case True
    from Cons.IH [OF Cons.prems(1) True, of "Suc p" ?ix]
    obtain j where j: "j < length as" "index_by_url as (Suc p) ?ix u = Some (Suc p + j)"
      "url (as ! j) = u" "find (\<lambda>a. url a = u) (rev as) = Some (as ! j)"
      by blast
    have "Suc j < length (a # as)" using j(1) by simp
    moreover have "index_by_url (a # as) p ix u = Some (p + Suc j)" using j(2) by simp
    moreover have "url ((a # as) ! Suc j) = u" using j(3) by simp
    moreover have "find (\<lambda>a. url a = u) (rev (a # as)) = Some ((a # as) ! Suc j)"
      using j(4) by (simp add: find_snoc)
    ultimately show ?thesis by blast
  next
    case False
    then have ua: "url a = u" using Cons.prems(2) by auto
    have "index_by_url (a # as) p ix u = Some (p + 0)"
      using False ua Cons.prems(1) by (simp add: index_by_url_skip)
    moreover have "find (\<lambda>a. url a = u) (rev as) = None"
      using False by (auto simp: find_None_iff)
    then have "find (\<lambda>a. url a = u) (rev (a # as)) = Some ((a # as) ! 0)"
      using ua by (simp add: find_snoc)
    ultimately show ?thesis using ua by (intro exI [of _ 0]) simp
  qed
qed

lemma merge_loop_inv:
  assumes "distinct us" "ix_ok ix n" "n \<le> length h"
    and "merge_loop ix idx us h mg = (h', mg')"
  shows "\<exists>addrs. mg' = mg @ addrs \<and> length addrs = length us \<and> length h \<le> length h'
      \<and> (\<forall>j<length us. h' ! (addrs ! j) = slot ix h (idx + j) (us ! j))
      \<and> (\<forall>q<length h. (\<forall>u\<in>set us. ix u \<noteq> Some q) \<longrightarrow> h' ! q = h ! q)"
  using assms
proof (induction us arbitrary: idx h mg)
  case Nil
  then show ?case by simp
next
  case (Cons u us)
  have bound: "\<And>v p. ix v = Some p \<Longrightarrow> p < n"
    and inj: "\<And>v w p. ix v = Some p \<Longrightarrow> ix w = Some p \<Longrightarrow> v = w"
    using Cons.prems(2) unfolding ix_ok_def by blast+
  have dist: "distinct us" and notin: "u \<notin> set us" using Cons.prems(1) by simp_all
  show ?case
  proof (cases "ix u")
    case (Some p)
    let ?h = "h[p := (h ! p)\<lparr>seq := int idx + 1\<rparr>]"
    have p: "p < length h" using bound [OF Some] Cons.prems(3) by simp
    have run: "merge_loop ix (Suc idx) us ?h (mg @ [p]) = (h', mg')"
      using Cons.prems(4) Some by simp
    have "n \<le> length ?h" using Cons.prems(3) by simp
    from Cons.IH [OF dist Cons.prems(2) this run]
    obtain addrs where A: "mg' = (mg @ [p]) @ addrs" "length addrs = length us"
      "length ?h \<le> length h'"
      "\<forall>j<length us. h' ! (addrs ! j) = slot ix ?h (Suc idx + j) (us ! j)"
      "\<forall>q<length ?h. (\<forall>v\<in>set us. ix v \<noteq> Some q) \<longrightarrow> h' ! q = ?h ! q"
      by blast
    have other: "\<And>v. v \<in> set us \<Longrightarrow> ix v \<noteq> Some p"
      using inj [OF _ Some] notin by blast
    have hp: "h' ! p = (h ! p)\<lparr>seq := int idx + 1\<rparr>"
      using A(5) p other by simp
    have slots: "h' ! ((p # addrs) ! j) = slot ix h (idx + j) ((u # us) ! j)"
      if "j < length (u # us)" for j
    proof (cases j)
      case 0
      then show ?thesis using hp Some by (simp add: slot_def)
    next
      case (Suc k)
      then have k: "k < length us" using that by simp
      have "slot ix ?h (Suc idx + k) (us ! k) = slot ix h (Suc idx + k) (us ! k)"
      proof (cases "ix (us ! k)")
        case None
        then show ?thesis by (simp add: slot_def)
      next
        case (Some p')
        then have "p' \<noteq> p" using other [of "us ! k"] k by auto
        then show ?thesis using Some by (simp add: slot_def)
      qed
      then show ?thesis using A(4) k Suc by simp
    qed
    have frame: "h' ! q = h ! q" if "q < length h" "\<forall>v\<in>set (u # us). ix v \<noteq> Some q" for q
    proof -
      have "q \<noteq> p" using that(2) Some by auto
      moreover have "h' ! q = ?h ! q" using A(5) that by simp
      ultimately show ?thesis by simp
    qed
    have "mg' = mg @ (p # addrs)" using A(1) by simp
    moreover have "length (p # addrs) = length (u # us)" using A(2) by simp
    moreover have "length h \<le> length h'" using A(3) by simp
    ultimately show ?thesis using slots frame by blast
  next
    case None
    let ?h = "h @ [new_entry (int idx + 1) u]"
    have run: "merge_loop ix (Suc idx) us ?h (mg @ [length h]) = (h', mg')"
      using Cons.prems(4) None by simp
    have "n \<le> length ?h" using Cons.prems(3) by simp
    from Cons.IH [OF dist Cons.prems(2) this run]
    obtain addrs where A: "mg' = (mg @ [length h]) @ addrs" "length addrs = length us"
      "length ?h \<le> length h'"
      "\<forall>j<length us. h' ! (addrs ! j) = slot ix ?h (Suc idx + j) (us ! j)"
      "\<forall>q<length ?h. (\<forall>v\<in>set us. ix v \<noteq> Some q) \<longrightarrow> h' ! q = ?h ! q"
      by blast
    have fresh: "\<And>v. ix v \<noteq> Some (length h)"
      using bound Cons.prems(3) by fastforce
    have hl: "h' ! length h = new_entry (int idx + 1) u"
      using A(5) fresh by simp
    have slots: "h' ! ((length h # addrs) ! j) = slot ix h (idx + j) ((u # us) ! j)"
      if "j < length (u # us)" for j
    proof (cases j)
      case 0
      then show ?thesis using hl None by (simp add: slot_def)
    next
      case (Suc k)
      then have k: "k < length us" using that by simp
      have "slot ix ?h (Suc idx + k) (us ! k) = slot ix h (Suc idx + k) (us ! k)"
      proof (cases "ix (us ! k)")
        case None
        then show ?thesis by (simp add: slot_def)
      next
        case (Some p')
        then have "p' < length h" using bound [OF Some] Cons.prems(3) by simp
        then show ?thesis using Some by (simp add: slot_def nth_append)
      qed
      then show ?thesis using A(4) k Suc by simp
    qed
    have frame: "h' ! q = h ! q" if "q < length h" "\<forall>v\<in>set (u # us). ix v \<noteq> Some q" for q
    proof -
      have "h' ! q = ?h ! q" using A(5) that by simp
      then show ?thesis using that(1) by (simp add: nth_append)
    qed
    have "mg' = mg @ (length h # addrs)" using A(1) by simp
    moreover have "length (length h # addrs) = length (u # us)" using A(2) by simp
    moreover have "length h \<le> length h'" using A(3) by simp
    ultimately show ?thesis using slots frame by blast
  qed
qed

lemma index_hit_props:
  assumes "index_by_url existing 0 Map.empty u = Some p"
  shows "u \<noteq> [] \<and> u \<in> url ` set existing \<and> p < length existing \<and> url (existing ! p) = u
     \<and> find (\<lambda>a. url a = u) (rev existing) = Some (existing ! p)"
proof -
  have nskip: "\<not> (u = [] \<or> u \<notin> url ` set existing)"
  proof
    assume "u = [] \<or> u \<notin> url ` set existing"
    then have "index_by_url existing 0 Map.empty u = Map.empty u"
      by (rule index_by_url_skip)
    then show False using assms by simp
  qed
  then have u: "u \<noteq> []" "u \<in> url ` set existing" by blast+
  from index_by_url_hit [OF u, of 0 Map.empty]
  obtain j where j: "j < length existing" "index_by_url existing 0 Map.empty u = Some (0 + j)"
    "url (existing ! j) = u" "find (\<lambda>a. url a = u) (rev existing) = Some (existing ! j)"
    by blast
  have "p = j" using j(2) assms by simp
  then show ?thesis using u j by simp
qed

lemma index_ok: "ix_ok (index_by_url existing 0 Map.empty) (length existing)"
  unfolding ix_ok_def
proof (intro conjI allI impI)
  fix u p assume "index_by_url existing 0 Map.empty u = Some p"
  then show "p < length existing" using index_hit_props by blast
next
  fix u v p
  assume "index_by_url existing 0 Map.empty u = Some p \<and> index_by_url existing 0 Map.empty v = Some p"
  then have "url (existing ! p) = u" "url (existing ! p) = v"
    using index_hit_props by blast+
  then show "u = v" by simp
qed

lemma index_miss:
  assumes "index_by_url existing 0 Map.empty u = None"
  shows "find_record existing u = None"
proof (cases "u = [] \<or> u \<notin> url ` set existing")
  case True
  then show ?thesis by (auto simp: find_record_def find_None_iff)
next
  case False
  then have u: "u \<noteq> []" "u \<in> url ` set existing" by blast+
  from index_by_url_hit [OF u, of 0 Map.empty] assms show ?thesis by auto
qed

lemma slot_merged_entry:
  "slot (index_by_url existing 0 Map.empty) existing i u = merged_entry existing i u"
proof (cases "index_by_url existing 0 Map.empty u")
  case None
  then show ?thesis using index_miss [OF None] by (simp add: slot_def merged_entry_def)
next
  case (Some p)
  from index_hit_props [OF Some]
  have "find_record existing u = Some (existing ! p)" by (simp add: find_record_def)
  then show ?thesis using Some by (simp add: slot_def merged_entry_def)
qed

lemma merge_loop_result:
  assumes "distinct urls"
  shows "build_manifest_from_urls urls existing =
         map (\<lambda>i. merged_entry existing i (urls ! i)) [0..<length urls]"
proof -
  let ?ix = "index_by_url existing 0 Map.empty"
  obtain h' mg' where run: "merge_loop ?ix 0 urls existing [] = (h', mg')"
    by (cases "merge_loop ?ix 0 urls existing []")
  have le: "length existing \<le> length existing" by simp
  from merge_loop_inv [OF assms index_ok le run]
  obtain addrs where A: "mg' = [] @ addrs" "length addrs = length urls"
    "\<forall>j<length urls. h' ! (addrs ! j) = slot ?ix existing (0 + j) (urls ! j)"
    by blast
  have mg: "mg' = addrs" using A(1) by simp
  have "map (\<lambda>p. h' ! p) addrs = map (\<lambda>i. merged_entry existing i (urls ! i)) [0..<length urls]"
  proof (rule nth_equalityI)
    show "length (map (\<lambda>p. h' ! p) addrs) = length (map (\<lambda>i. merged_entry existing i (urls ! i)) [0..<length urls])"
      using A(2) by simp
  next
    fix j assume "j < length (map (\<lambda>p. h' ! p) addrs)"
    then have j: "j < length urls" using A(2) by simp
    then have "h' ! (addrs ! j) = merged_entry existing j (urls ! j)"
      using A(3) by (simp add: slot_merged_entry)
    then show "map (\<lambda>p. h' ! p) addrs ! j = map (\<lambda>i. merged_entry existing i (urls ! i)) [0..<length urls] ! j"
      using j A(2) by simp
  qed
  then show ?thesis using run mg by (simp add: build_manifest_from_urls_def)
qed

lemma find_SomeD: "find P xs = Some x \<Longrightarrow> P x \<and> x \<in> set xs"
  by (induction xs) (auto split: if_splits)

lemma find_record_url: "find_record existing u = Some a \<Longrightarrow> url a = u"
  unfolding find_record_def using find_SomeD [of "\<lambda>a. url a = u" "rev existing" a]
  by (simp split: if_splits)

lemma merged_entry_url: "url (merged_entry existing i u) = u"
proof (cases "find_record existing u")
  case None
  then show ?thesis by (simp add: merged_entry_def new_entry_def)
next
  case (Some a)
  then show ?thesis using find_record_url [OF Some] by (simp add: merged_entry_def)
qed

lemma merged_entry_seq: "seq (merged_entry existing i u) = int i + 1"
  by (cases "find_record existing u") (simp_all add: merged_entry_def new_entry_def)

lemma find_unique:
  assumes "i < length xs" "P (xs ! i)" "\<forall>j<length xs. P (xs ! j) \<longrightarrow> j = i"
  shows "find P (rev xs) = Some (xs ! i)"
proof -
  have "xs ! i \<in> set (rev xs)" using assms(1) by simp
  then have "find P (rev xs) \<noteq> None" using assms(2) unfolding find_None_iff by blast
  then obtain y where y: "find P (rev xs) = Some y" by blast
  from find_SomeD [OF y] have "P y" "y \<in> set xs" by simp_all
  then obtain j where "j < length xs" "y = xs ! j" unfolding in_set_conv_nth by blast
  then have "y = xs ! i" using assms(3) \<open>P y\<close> by blast
  then show ?thesis using y by simp
qed

lemma seq_update_same: "seq a = n \<Longrightarrow> a\<lparr>seq := n\<rparr> = a"
  by (cases a) simp

lemma merged_entry_idem:
  assumes "distinct urls" "i < length urls"
  shows "merged_entry (map (\<lambda>i. merged_entry existing i (urls ! i)) [0..<length urls]) i (urls ! i)
         = merged_entry existing i (urls ! i)"
proof -
  define m where "m = map (\<lambda>i. merged_entry existing i (urls ! i)) [0..<length urls]"
  define r where "r = merged_entry existing i (urls ! i)"
  have len: "length m = length urls" by (simp add: m_def)
  have nth: "\<And>j. j < length urls \<Longrightarrow> url (m ! j) = urls ! j"
    by (simp add: m_def merged_entry_url)
  have mi: "m ! i = r" using assms(2) by (simp add: m_def r_def)
  have sr: "seq r = int i + 1" by (simp add: r_def merged_entry_seq)
  have "merged_entry m i (urls ! i) = r"
  proof (cases "urls ! i = []")
    case True
    have "find_record m [] = None" "find_record existing [] = None"
      by (simp_all add: find_record_def)
    then show ?thesis using True by (simp add: r_def merged_entry_def)
  next
    case False
    have "find (\<lambda>a. url a = urls ! i) (rev m) = Some (m ! i)"
    proof (rule find_unique)
      show "i < length m" using assms(2) len by simp
      show "url (m ! i) = urls ! i" using nth assms(2) by simp
      show "\<forall>j<length m. url (m ! j) = urls ! i \<longrightarrow> j = i"
      proof (intro allI impI)
        fix j assume j: "j < length m" "url (m ! j) = urls ! i"
        then have "urls ! j = urls ! i" using nth len by simp
        then show "j = i" using assms j(1) len by (simp add: nth_eq_iff_index_eq)
      qed
    qed
    then have "find_record m (urls ! i) = Some r"
      using False mi by (simp add: find_record_def)
    then have "merged_entry m i (urls ! i) = r\<lparr>seq := int i + 1\<rparr>"
      by (simp add: merged_entry_def)
    then show ?thesis using seq_update_same [OF sr] by simp
  qed
  then show ?thesis by (simp add: m_def r_def)
qed

subsection \<open>Claim C1: manifest merge\<close>

text \<open>
  Claim C1, as the code has it. For every existing manifest and every URL list without
  a repeated URL, \<open>build_manifest_from_urls\<close> returns one record per URL in the order of
  the list. Where the existing manifest holds a record with that URL (the URL not
  empty; the last such record when several share it), the record returned is that
  record with only \<open>seq\<close> overwritten by the 1-based position; otherwise it is a fresh
  record with status \<open>pending\<close> and no errors. Rebuilding from the same list again
  returns the same manifest.
\<close>

theorem build_manifest_merge:
  assumes "distinct urls"
  shows "build_manifest_from_urls urls existing =
           map (\<lambda>i. merged_entry existing i (urls ! i)) [0..<length urls]
       \<and> build_manifest_from_urls urls (build_manifest_from_urls urls existing) =
           build_manifest_from_urls urls existing"
proof -
  define m where "m = map (\<lambda>i. merged_entry existing i (urls ! i)) [0..<length urls]"
  have 1: "build_manifest_from_urls urls existing = m"
    unfolding m_def by (rule merge_loop_result [OF assms])
  have 2: "build_manifest_from_urls urls m = map (\<lambda>i. merged_entry m i (urls ! i)) [0..<length urls]"
    by (rule merge_loop_result [OF assms])
  have "map (\<lambda>i. merged_entry m i (urls ! i)) [0..<length urls] = m"
  proof (rule nth_equalityI)
    show "length (map (\<lambda>i. merged_entry m i (urls ! i)) [0..<length urls]) = length m"
      by (simp add: m_def)
  next
    fix j assume "j < length (map (\<lambda>i. merged_entry m i (urls ! i)) [0..<length urls])"
    then have j: "j < length urls" by simp
    have "merged_entry m j (urls ! j) = merged_entry existing j (urls ! j)"
      unfolding m_def by (rule merged_entry_idem [OF assms j])
    then show "map (\<lambda>i. merged_entry m i (urls ! i)) [0..<length urls] ! j = m ! j"
      using j by (simp add: m_def)
  qed
  then have 3: "build_manifest_from_urls urls m = m" using 2 by simp
  have "build_manifest_from_urls urls (build_manifest_from_urls urls existing) =
        build_manifest_from_urls urls existing"
    using 3 by (simp only: 1)
  then show ?thesis using 1 unfolding m_def by blast
qed

theorem build_manifest_merge_witness:
  "distinct [''https://mp.weixin.qq.com/s/c'', ''https://mp.weixin.qq.com/s/a'']
   \<and> build_manifest_from_urls [''https://mp.weixin.qq.com/s/c'', ''https://mp.weixin.qq.com/s/a''] [done1]
       = [new_entry 1 ''https://mp.weixin.qq.com/s/c'', done1\<lparr>seq := 2\<rparr>]
   \<and> build_manifest_from_urls [''https://mp.weixin.qq.com/s/c'', ''https://mp.weixin.qq.com/s/a'']
        (build_manifest_from_urls [''https://mp.weixin.qq.com/s/c'', ''https://mp.weixin.qq.com/s/a''] [done1])
       = build_manifest_from_urls [''https://mp.weixin.qq.com/s/c'', ''https://mp.weixin.qq.com/s/a''] [done1]"
proof -
  have d: "distinct [''https://mp.weixin.qq.com/s/c'', ''https://mp.weixin.qq.com/s/a'']"
    by simp
  have e: "map (\<lambda>i. merged_entry [done1] i ([''https://mp.weixin.qq.com/s/c'', ''https://mp.weixin.qq.com/s/a''] ! i))
             [0..<length [''https://mp.weixin.qq.com/s/c'', ''https://mp.weixin.qq.com/s/a'']]
           = [new_entry 1 ''https://mp.weixin.qq.com/s/c'', done1\<lparr>seq := 2\<rparr>]"
    by (simp add: upt_rec merged_entry_def find_record_def done1_def)
  from build_manifest_merge [OF d, of "[done1]"] show ?thesis
    unfolding e using d by blast
qed

text \<open>
  The claim as stated covers every URL list. With a URL listed twice, both positions
  hold the same dictionary, whose \<open>seq\<close> is the last position; and rebuilding from
  such a list changes the manifest.
\<close>

theorem build_manifest_duplicate_counterexample:
  "seq (build_manifest_from_urls [''https://mp.weixin.qq.com/s/a'', ''https://mp.weixin.qq.com/s/a''] [done1] ! 0) = 2
   \<and> build_manifest_from_urls [''https://mp.weixin.qq.com/s/a'', ''https://mp.weixin.qq.com/s/a'']
        (build_manifest_from_urls [''https://mp.weixin.qq.com/s/a'', ''https://mp.weixin.qq.com/s/a''] [])
     \<noteq> build_manifest_from_urls [''https://mp.weixin.qq.com/s/a'', ''https://mp.weixin.qq.com/s/a''] []"
  by (simp add: build_manifest_from_urls_def done1_def new_entry_def)

subsection \<open>Claim C4: the work queue\<close>

text \<open>
  Claim C4, as the code has it. For every manifest the work queue holds, in manifest
  order, exactly the records that have a non-empty URL and whose status is neither
  \<open>downloaded\<close> nor \<open>extracted\<close> (every record with a non-empty URL when the force
  flag is set), cut to its first \<open>limit\<close> entries when \<open>limit\<close> is positive.
\<close>

theorem work_queue_contents:
  "work_queue force limit articles =
     (let q = filter (\<lambda>a. url a \<noteq> [] \<and> (force \<or> \<not> terminal_success (status a))) articles
      in if 0 < limit then take (nat limit) q else q)"
  by (auto simp: work_queue_def filter_loop_filter Let_def)

theorem work_queue_contents_witness:
  "work_queue False 1 [done1, failed1, new_entry 3 ''https://mp.weixin.qq.com/s/c''] = [failed1]
   \<and> work_queue True 0 [done1, failed1] = [done1, failed1]"
  using work_queue_contents [of False 1 "[done1, failed1, new_entry 3 ''https://mp.weixin.qq.com/s/c'']"]
    work_queue_contents [of True 0 "[done1, failed1]"]
  by (simp add: terminal_success_def done1_def failed1_def new_entry_def)

text \<open>
  The claim as stated puts every record outside the terminal-success set in the queue.
  A pending record without a URL is left out, also under the force flag.
\<close>

theorem work_queue_no_url_counterexample:
  "\<not> terminal_success (status (new_entry 1 []))
   \<and> work_queue False 0 [new_entry 1 []] = []
   \<and> work_queue True 0 [new_entry 1 []] = []"
  by (simp add: work_queue_def terminal_success_def new_entry_def)

subsection \<open>Claim C8: the retry command\<close>

text \<open>
  Claim C8. For every manifest, the retry command sets the status to \<open>pending\<close> and
  the error list to empty on exactly the records whose status is \<open>failed\<close>; every
  other record, and every other field of the records it resets, is unchanged. The
  driver loop is entered when there was a failed record.
\<close>

theorem cmd_retry_frame:
  "length (fst (cmd_retry m)) = length m
   \<and> (\<forall>i<length m. fst (cmd_retry m) ! i =
         (if status (m ! i) = ''failed'' then (m ! i)\<lparr>status := ''pending'', errors := []\<rparr>
          else m ! i))
   \<and> (snd (cmd_retry m) \<longleftrightarrow> (\<exists>a\<in>set m. status a = ''failed''))"
proof -
  have fp: "failed_positions m = [] \<longleftrightarrow> \<not> (\<exists>a\<in>set m. status a = ''failed'')"
  proof -
    have "failed_positions m = [] \<longleftrightarrow> set (failed_positions m) = {}" by simp
    also have "\<dots> \<longleftrightarrow> \<not> (\<exists>i<length m. status (m ! i) = ''failed'')"
      unfolding failed_positions_set by blast
    also have "\<dots> \<longleftrightarrow> \<not> (\<exists>a\<in>set m. status a = ''failed'')"
      by (metis in_set_conv_nth)
    finally show ?thesis .
  qed
  have nth: "reset_loop (failed_positions m) m ! i =
      (if status (m ! i) = ''failed'' then (m ! i)\<lparr>status := ''pending'', errors := []\<rparr> else m ! i)"
    if "i < length m" for i
  proof (cases "status (m ! i) = ''failed''")
    case True
    then have "i \<in> set (failed_positions m)" using that by (simp add: failed_positions_set)
    then show ?thesis using True that by (simp add: reset_loop_inside)
  next
    case False
    then have "i \<notin> set (failed_positions m)" by (simp add: failed_positions_set)
    then show ?thesis using False by (simp add: reset_loop_outside)
  qed
  show ?thesis
  proof (cases "failed_positions m = []")
    case True
    then have nofail: "\<not> (\<exists>a\<in>set m. status a = ''failed'')"
      using fp by simp
    then have none: "\<forall>i<length m. status (m ! i) \<noteq> ''failed''"
      using nth_mem by blast
    have "cmd_retry m = (m, False)" using True by (simp add: cmd_retry_def)
    then show ?thesis using none nofail by simp
  next
    case False
    then have "m \<noteq> []" by (auto simp: failed_positions_def)
    then have "cmd_retry m = (reset_loop (failed_positions m) m, True)"
      using False by (simp add: cmd_retry_def)
    then show ?thesis using nth fp False by (simp add: reset_loop_length)
  qed
qed

theorem cmd_retry_frame_witness:
  "fst (cmd_retry [done1, failed1]) ! 0 = done1
   \<and> fst (cmd_retry [done1, failed1]) ! 1 = failed1\<lparr>status := ''pending'', errors := []\<rparr>
   \<and> snd (cmd_retry [done1, failed1])"
proof -
  have s: "status ([done1, failed1] ! 0) \<noteq> ''failed''" "status ([done1, failed1] ! 1) = ''failed''"
    by (simp_all add: done1_def failed1_def)
  have l: "(0::nat) < length [done1, failed1]" "(1::nat) < length [done1, failed1]" by simp_all
  have f: "\<exists>a\<in>set [done1, failed1]. status a = ''failed''" by (simp add: failed1_def)
  from cmd_retry_frame [of "[done1, failed1]"] s l f show ?thesis by simp
qed

section \<open>Properties of the fetch loop\<close>

lemma real_page_content: "is_content (Html real_page)"
proof -
  have "\<not> sublist anti_crawl_marker (take 3000 real_page)"
  proof
    assume "sublist anti_crawl_marker (take 3000 real_page)"
    then have "set anti_crawl_marker \<subseteq> set (take 3000 real_page)" by (rule set_mono_sublist)
    then show False by (simp add: anti_crawl_marker_def real_page_def)
  qed
  then show ?thesis by (simp add: real_page_def)
qed

lemma anti_crawl_page_marker: "is_anti_crawl (Html anti_crawl_page)"
  by (simp add: anti_crawl_page_def anti_crawl_marker_def)

lemma anti_crawl_skip:
  assumes "\<forall>j<n. is_anti_crawl (cdp (k + j))" "n \<le> length as"
  shows "fetch_loop cdp as k sl = fetch_loop cdp (drop n as) (k + n) (sl @ replicate n RATE_LIMIT_PAUSE)"
  using assms
proof (induction n arbitrary: as k sl)
  case 0
  then show ?case by simp
next
  case (Suc n)
  then obtain a rest where as: "as = a # rest" by (cases as) auto
  have "is_anti_crawl (cdp (k + 0))" using Suc.prems(1) by blast
  then obtain h where h: "cdp k = Html h" "sublist anti_crawl_marker (take 3000 h)"
    by (cases "cdp k") auto
  have step: "fetch_loop cdp as k sl = fetch_loop cdp rest (Suc k) (sl @ [RATE_LIMIT_PAUSE])"
    using as h by simp
  have "\<forall>j<n. is_anti_crawl (cdp (Suc k + j))"
  proof (intro allI impI)
    fix j assume "j < n"
    then have "is_anti_crawl (cdp (k + Suc j))" using Suc.prems(1) by blast
    then show "is_anti_crawl (cdp (Suc k + j))" by simp
  qed
  moreover have "n \<le> length rest" using Suc.prems(2) as by simp
  ultimately have "fetch_loop cdp rest (Suc k) (sl @ [RATE_LIMIT_PAUSE]) =
      fetch_loop cdp (drop n rest) (Suc k + n) ((sl @ [RATE_LIMIT_PAUSE]) @ replicate n RATE_LIMIT_PAUSE)"
    by (rule Suc.IH)
  then show ?case using step as by (simp add: replicate_app_Cons_same)
qed

lemma content_step:
  "is_content (cdp k) \<Longrightarrow> cdp k = Html h \<Longrightarrow> fetch_loop cdp (a # rest) k sl = (Some h, Suc k, sl)"
  by simp

lemma attempts_list: "[0..<MAX_RETRIES + 1] = [0, 1, 2, 3]"
  by (simp add: MAX_RETRIES_def upt_rec)

lemma download_unfold: "download_raw_html_cdp cdp = fetch_loop cdp [0, 1, 2, 3] 0 []"
  by (simp only: download_raw_html_cdp_def attempts_list)

lemma is_content_real: "\<not> sublist anti_crawl_marker (take 3000 real_page)" "\<not> length real_page < 1000"
  using real_page_content by simp_all

lemma is_anti_page: "sublist anti_crawl_marker (take 3000 anti_crawl_page)"
  using anti_crawl_page_marker by simp

subsection \<open>Claim C2: the anti-crawl page\<close>

text \<open>
  Claim C2, as the code has it. When the marker is found in the first 3000 characters
  of the page, the loop sleeps for the fixed cooldown of 60 seconds, with no backoff,
  and goes on with the next attempt: the anti-crawl page uses up one of the
  \<open>MAX_RETRIES + 1\<close> attempts. A fetch whose first \<open>n\<close> pages are anti-crawl pages and
  whose next page is real content succeeds when \<open>n\<close> is at most \<open>MAX_RETRIES\<close>, after
  \<open>n\<close> cooldowns; when the first \<open>MAX_RETRIES + 1\<close> pages are all anti-crawl pages it
  returns nothing, whatever a later run would have given.
\<close>

theorem anti_crawl_consumes_attempt:
  "(n \<le> MAX_RETRIES \<and> (\<forall>j<n. is_anti_crawl (cdp j)) \<and> is_content (cdp n) \<and> cdp n = Html h
      \<longrightarrow> download_raw_html_cdp cdp = (Some h, Suc n, replicate n RATE_LIMIT_PAUSE))
   \<and> ((\<forall>j\<le>MAX_RETRIES. is_anti_crawl (cdp j))
      \<longrightarrow> download_raw_html_cdp cdp = (None, MAX_RETRIES + 1, replicate (MAX_RETRIES + 1) RATE_LIMIT_PAUSE))"
proof (intro conjI impI)
  assume a: "n \<le> MAX_RETRIES \<and> (\<forall>j<n. is_anti_crawl (cdp j)) \<and> is_content (cdp n) \<and> cdp n = Html h"
  then have "\<forall>j<n. is_anti_crawl (cdp (0 + j))" by simp
  moreover have "n \<le> length [0..<MAX_RETRIES + 1]" using a by simp
  ultimately have "fetch_loop cdp [0..<MAX_RETRIES + 1] 0 [] =
      fetch_loop cdp (drop n [0..<MAX_RETRIES + 1]) (0 + n) ([] @ replicate n RATE_LIMIT_PAUSE)"
    by (rule anti_crawl_skip)
  then have 1: "download_raw_html_cdp cdp =
      fetch_loop cdp (drop n [0..<MAX_RETRIES + 1]) n (replicate n RATE_LIMIT_PAUSE)"
    by (simp add: download_raw_html_cdp_def)
  have "n < MAX_RETRIES + 1" using a by simp
  then have "[n..<MAX_RETRIES + 1] = n # [Suc n..<MAX_RETRIES + 1]"
    by (rule upt_conv_Cons)
  moreover have "drop n [0..<MAX_RETRIES + 1] = [0 + n..<MAX_RETRIES + 1]"
    by (rule drop_upt)
  ultimately have 2: "drop n [0..<MAX_RETRIES + 1] = n # [Suc n..<MAX_RETRIES + 1]"
    by simp
  have 3: "fetch_loop cdp (n # [Suc n..<MAX_RETRIES + 1]) n (replicate n RATE_LIMIT_PAUSE) =
      (Some h, Suc n, replicate n RATE_LIMIT_PAUSE)"
  proof (rule content_step)
    show "is_content (cdp n)" using a by blast
    show "cdp n = Html h" using a by blast
  qed
  show "download_raw_html_cdp cdp = (Some h, Suc n, replicate n RATE_LIMIT_PAUSE)"
    by (simp only: 1 2 3)
next
  assume a: "\<forall>j\<le>MAX_RETRIES. is_anti_crawl (cdp j)"
  then have "\<forall>j<MAX_RETRIES + 1. is_anti_crawl (cdp (0 + j))" by simp
  moreover have "MAX_RETRIES + 1 \<le> length [0..<MAX_RETRIES + 1]" by simp
  ultimately have "fetch_loop cdp [0..<MAX_RETRIES + 1] 0 [] =
      fetch_loop cdp (drop (MAX_RETRIES + 1) [0..<MAX_RETRIES + 1]) (0 + (MAX_RETRIES + 1))
        ([] @ replicate (MAX_RETRIES + 1) RATE_LIMIT_PAUSE)"
    by (rule anti_crawl_skip)
  then show "download_raw_html_cdp cdp =
      (None, MAX_RETRIES + 1, replicate (MAX_RETRIES + 1) RATE_LIMIT_PAUSE)"
    by (simp add: download_raw_html_cdp_def)
qed

theorem anti_crawl_consumes_attempt_witness:
  "download_raw_html_cdp (\<lambda>k. if k < 2 then Html anti_crawl_page else Html real_page)
     = (Some real_page, 3, [60, 60])
   \<and> download_raw_html_cdp (\<lambda>k. Html anti_crawl_page) = (None, 4, [60, 60, 60, 60])"
proof -
  let ?cdp = "\<lambda>k::nat. if k < 2 then Html anti_crawl_page else Html real_page"
  have 1: "2 \<le> MAX_RETRIES \<and> (\<forall>j<2. is_anti_crawl (?cdp j)) \<and> is_content (?cdp 2)
      \<and> ?cdp 2 = Html real_page"
    using anti_crawl_page_marker real_page_content by (simp add: MAX_RETRIES_def)
  have 2: "\<forall>j\<le>MAX_RETRIES. is_anti_crawl ((\<lambda>k. Html anti_crawl_page) j)"
    using anti_crawl_page_marker by simp
  have r: "replicate 2 RATE_LIMIT_PAUSE = [60, 60]"
    "replicate (MAX_RETRIES + 1) RATE_LIMIT_PAUSE = [60, 60, 60, 60]"
    by (simp_all add: RATE_LIMIT_PAUSE_def MAX_RETRIES_def numeral_2_eq_2 numeral_3_eq_3)
  from anti_crawl_consumes_attempt [of 2 ?cdp real_page] 1
  have a: "download_raw_html_cdp ?cdp = (Some real_page, Suc 2, replicate 2 RATE_LIMIT_PAUSE)"
    by blast
  from anti_crawl_consumes_attempt [of 0 "\<lambda>k. Html anti_crawl_page" real_page] 2
  have b: "download_raw_html_cdp (\<lambda>k. Html anti_crawl_page) =
      (None, MAX_RETRIES + 1, replicate (MAX_RETRIES + 1) RATE_LIMIT_PAUSE)"
    by blast
  show ?thesis using a b r by (simp add: MAX_RETRIES_def)
qed

text \<open>
  The claim as stated lets the fetch succeed however many anti-crawl pages come first.
  With four of them the loop gives up, although the fifth run would return real content.
\<close>

theorem anti_crawl_four_pages_counterexample:
  "is_content ((\<lambda>k::nat. if k < 4 then Html anti_crawl_page else Html real_page) 4)
   \<and> download_raw_html_cdp (\<lambda>k. if k < 4 then Html anti_crawl_page else Html real_page)
      = (None, 4, [60, 60, 60, 60])"
  unfolding download_unfold using real_page_content is_anti_page
  by (simp add: RATE_LIMIT_PAUSE_def)

subsection \<open>Claim C3: backoff\<close>

text \<open>
  Claim C3 at a fetch that times out three times and then returns a real page, and at
  one that times out four times. Both make four runs; the first returns the page and the
  second returns nothing. The delays slept before the retries are 5, 10 and 20 seconds:
  the base delay is doubled at each step, not tripled. In a queue of two records, the
  record whose fetch fails four times ends \<open>failed\<close> with the one note
  \<open>download failed\<close>, and the loop goes on to the next record, which ends
  \<open>extracted\<close>.
\<close>

theorem backoff_doubles:
  "download_raw_html_cdp (\<lambda>k. if k < 3 then TimeoutExpired else Html real_page)
     = (Some real_page, 4, [5, 10, 20])
   \<and> download_raw_html_cdp (\<lambda>k. TimeoutExpired) = (None, 4, [5, 10, 20])
   \<and> crawl_loop
        [(new_entry 1 ''https://mp.weixin.qq.com/s/a'', (\<lambda>k. TimeoutExpired), (\<lambda>h. Inr sample_result)),
         (new_entry 2 ''https://mp.weixin.qq.com/s/b'',
            (\<lambda>k. if k < 3 then TimeoutExpired else Html real_page), (\<lambda>h. Inr sample_result))]
      = [(new_entry 1 ''https://mp.weixin.qq.com/s/a'')\<lparr>status := ''failed'', errors := [''download failed'']\<rparr>,
         (new_entry 2 ''https://mp.weixin.qq.com/s/b'')\<lparr>status := ''extracted'', title := ''T'',
            dir_name := ''0001_T'', author := ''A'', publish_time := ''2024-01-01''\<rparr>]"
proof -
  have a: "download_raw_html_cdp (\<lambda>k. if k < 3 then TimeoutExpired else Html real_page)
     = (Some real_page, 4, [5, 10, 20])"
    unfolding download_unfold using is_content_real
    by (simp add: backoff_def MAX_RETRIES_def BACKOFF_BASE_def)
  have b: "download_raw_html_cdp (\<lambda>k. TimeoutExpired) = (None, 4, [5, 10, 20])"
    unfolding download_unfold
    by (simp add: backoff_def MAX_RETRIES_def BACKOFF_BASE_def)
  show ?thesis
    by (simp add: a b crawl_record_def sample_result_def new_entry_def)
qed

section \<open>Properties of the image download\<close>

lemma nap_fields [simp]:
  "files (nap a s) = files s" "stats (nap a s) = stats s" "img_counter (nap a s) = img_counter s"
  "requests (nap a s) = requests s" "written (nap a s) = written s"
  by (simp_all add: nap_def)

lemma try_download_skip:
  assumes "\<forall>j<n. \<not> usable (net (length (requests s) + j))" "n \<le> length as"
  shows "\<exists>s'. try_download net src fn as s = try_download net src fn (drop n as) s'
      \<and> requests s' = requests s @ replicate n src \<and> files s' = files s \<and> stats s' = stats s
      \<and> img_counter s' = img_counter s \<and> written s' = written s"
  using assms
proof (induction n arbitrary: as s)
  case 0
  then show ?case by (intro exI [of _ s]) simp
next
  case (Suc n)
  then obtain a rest where as: "as = a # rest" by (cases as) auto
  let ?s1 = "nap a (s\<lparr>requests := requests s @ [src]\<rparr>)"
  have "\<not> usable (net (length (requests s) + 0))" using Suc.prems(1) by blast
  then have step: "try_download net src fn as s = try_download net src fn rest ?s1"
    using as by (cases "net (length (requests s))") (simp_all add: Let_def)
  have "\<forall>j<n. \<not> usable (net (length (requests ?s1) + j))"
  proof (intro allI impI)
    fix j assume "j < n"
    then have "\<not> usable (net (length (requests s) + Suc j))" using Suc.prems(1) by blast
    then show "\<not> usable (net (length (requests ?s1) + j))" by simp
  qed
  moreover have "n \<le> length rest" using Suc.prems(2) as by simp
  ultimately obtain s' where s': "try_download net src fn rest ?s1 = try_download net src fn (drop n rest) s'"
    "requests s' = requests ?s1 @ replicate n src" "files s' = files ?s1" "stats s' = stats ?s1"
    "img_counter s' = img_counter ?s1" "written s' = written ?s1"
    using Suc.IH [of ?s1 rest] by blast
  have "try_download net src fn as s = try_download net src fn (drop (Suc n) as) s'"
    using step s'(1) as by simp
  moreover have "requests s' = requests s @ replicate (Suc n) src"
    using s'(2) by (simp add: replicate_app_Cons_same)
  ultimately show ?case using s'(3-6) by auto
qed

lemma try_download_exhausted:
  assumes "\<forall>j<length as. \<not> usable (net (length (requests s) + j))"
  shows "\<exists>s'. try_download net src fn as s = (False, src, s')
      \<and> requests s' = requests s @ replicate (length as) src \<and> files s' = files s
      \<and> stats s' = stats s \<and> img_counter s' = img_counter s \<and> written s' = written s"
proof -
  from try_download_skip [OF assms order_refl, of src fn]
  show ?thesis by simp
qed

lemma try_download_success:
  assumes "\<forall>i<j. \<not> usable (net (length (requests s) + i))" "j < length as"
    and "net (length (requests s) + j) = Body data" "100 \<le> length data"
  shows "\<exists>s'. try_download net src fn as s = (True, ''assets/'' @ fn, s')
      \<and> requests s' = requests s @ replicate (Suc j) src \<and> files s' = (files s)(fn \<mapsto> data)
      \<and> stats s' = (stats s)\<lparr>ok := ok (stats s) + 1, bytes := bytes (stats s) + int (length data)\<rparr>
      \<and> img_counter s' = img_counter s \<and> written s' = written s @ [(fn, data)]"
proof -
  have "j \<le> length as" using assms(2) by simp
  from try_download_skip [OF assms(1) this, of src fn]
  obtain s1 where s1: "try_download net src fn as s = try_download net src fn (drop j as) s1"
    "requests s1 = requests s @ replicate j src" "files s1 = files s" "stats s1 = stats s"
    "img_counter s1 = img_counter s" "written s1 = written s"
    by blast
  obtain a rest where d: "drop j as = a # rest"
    using assms(2) by (cases "drop j as") auto
  have n: "net (length (requests s1)) = Body data" using s1(2) assms(3) by simp
  let ?s2 = "s1\<lparr>requests := requests s1 @ [src]\<rparr>"
  let ?s' = "?s2\<lparr>files := (files ?s2)(fn \<mapsto> data), written := written ?s2 @ [(fn, data)],
     stats := (stats ?s2)\<lparr>ok := ok (stats ?s2) + 1, bytes := bytes (stats ?s2) + int (length data)\<rparr>\<rparr>"
  have "try_download net src fn (a # rest) s1 = (True, ''assets/'' @ fn, ?s')"
    using n assms(4) by (simp add: Let_def)
  then have "try_download net src fn as s = (True, ''assets/'' @ fn, ?s')"
    using s1(1) d by simp
  moreover have "requests ?s' = requests s @ replicate (Suc j) src"
    using s1(2) by (simp add: replicate_app_Cons_same)
  ultimately show ?thesis using s1(3-6) by (intro exI [of _ ?s']) simp
qed

lemma usable_Body: "usable r \<Longrightarrow> \<exists>data. r = Body data \<and> 100 \<le> length data"
  by (cases r) simp_all

lemma try_download_cases:
  "(\<exists>s'. try_download net src fn as s = (False, src, s')
      \<and> requests s' = requests s @ replicate (length as) src \<and> files s' = files s
      \<and> stats s' = stats s \<and> img_counter s' = img_counter s \<and> written s' = written s)
   \<or> (\<exists>s' data j. try_download net src fn as s = (True, ''assets/'' @ fn, s')
      \<and> 100 \<le> length data
      \<and> requests s' = requests s @ replicate (Suc j) src \<and> files s' = (files s)(fn \<mapsto> data)
      \<and> stats s' = (stats s)\<lparr>ok := ok (stats s) + 1, bytes := bytes (stats s) + int (length data)\<rparr>
      \<and> img_counter s' = img_counter s \<and> written s' = written s @ [(fn, data)])"
proof (cases "\<exists>j<length as. usable (net (length (requests s) + j))")
  case False
  then have "\<forall>j<length as. \<not> usable (net (length (requests s) + j))" by blast
  from try_download_exhausted [OF this, of src fn] show ?thesis by blast
next
  case True
  define P where "P = (\<lambda>j. j < length as \<and> usable (net (length (requests s) + j)))"
  have "\<exists>j. P j" using True unfolding P_def by blast
  then obtain j where j: "P j" "\<forall>i<j. \<not> P i"
    using exists_least_iff [of P] by blast
  have jl: "j < length as" and u: "usable (net (length (requests s) + j))"
    using j(1) unfolding P_def by blast+
  have before: "\<forall>i<j. \<not> usable (net (length (requests s) + i))"
    using j(2) jl unfolding P_def by auto
  from usable_Body [OF u] obtain data where
    d: "net (length (requests s) + j) = Body data" "100 \<le> length data" by blast
  from try_download_success [OF before jl d, of src fn] d(2) show ?thesis by blast
qed


lemma image_step_untouched:
  "untouched src \<Longrightarrow> image_step L net src s = Inr (src, s)"
  by (simp add: image_step_def untouched_def)

lemma file_present_counted [simp]:
  "file_present (s\<lparr>stats := st, img_counter := c\<rparr>) f = file_present s f"
  by (simp add: file_present_def)


lemma image_step_skipped:
  assumes "\<not> untouched src" "pre_try_error L src (img_counter s + 1) = None"
    and "file_present s (next_filename L s src)"
  shows "image_step L net src s =
     Inr (''assets/'' @ next_filename L s src,
      s\<lparr>stats := (stats s)\<lparr>total := total (stats s) + 1, skipped := skipped (stats s) + 1,
                            ok := ok (stats s) + 1\<rparr>,
        img_counter := img_counter s + 1\<rparr>)"
  using assms by (simp add: image_step_def untouched_def next_filename_def Let_def)

lemma image_step_fetch:
  assumes "\<not> untouched src" "pre_try_error L src (img_counter s + 1) = None"
    and "\<not> file_present s (next_filename L s src)"
  shows "image_step L net src s =
     (case try_download net src (next_filename L s src) [0..<IMG_RETRY + 1]
             (s\<lparr>stats := (stats s)\<lparr>total := total (stats s) + 1\<rparr>, img_counter := img_counter s + 1\<rparr>) of
        (True, img_src, s2) \<Rightarrow> Inr (img_src, s2)
      | (False, img_src, s2) \<Rightarrow> Inr (src, s2\<lparr>stats := (stats s2)\<lparr>failed := failed (stats s2) + 1\<rparr>\<rparr>))"
  using assms by (simp add: image_step_def untouched_def next_filename_def Let_def)

lemma image_step_returns:
  "image_step L net src s = Inr r \<Longrightarrow> untouched src \<or> pre_try_error L src (img_counter s + 1) = None"
  by (cases "pre_try_error L src (img_counter s + 1)")
     (auto simp: image_step_def untouched_def Let_def)

lemma image_step_outcome:
  assumes "image_step L net src s = Inr (src', s')"
  shows "step_outcome L src s src' s'"
proof (cases "untouched src")
  case True
  then show ?thesis using assms by (simp add: image_step_untouched step_outcome_def)
next
  case nu: False
  then have clear: "pre_try_error L src (img_counter s + 1) = None"
    using image_step_returns [OF assms] by blast
  show ?thesis
  proof (cases "file_present s (next_filename L s src)")
    case True
    from image_step_skipped [OF nu clear True, of net] assms
    have "src' = ''assets/'' @ next_filename L s src"
      "s' = s\<lparr>stats := (stats s)\<lparr>total := total (stats s) + 1, skipped := skipped (stats s) + 1,
                            ok := ok (stats s) + 1\<rparr>, img_counter := img_counter s + 1\<rparr>"
      by simp_all
    then show ?thesis using nu True by (simp add: step_outcome_def)
  next
    case np: False
    let ?fn = "next_filename L s src"
    let ?s1 = "s\<lparr>stats := (stats s)\<lparr>total := total (stats s) + 1\<rparr>, img_counter := img_counter s + 1\<rparr>"
    note st = image_step_fetch [OF nu clear np, of net]
    from try_download_cases [of net src ?fn "[0..<IMG_RETRY + 1]" ?s1]
    show ?thesis
    proof (elim disjE exE conjE)
      fix s2
      assume t: "try_download net src ?fn [0..<IMG_RETRY + 1] ?s1 = (False, src, s2)"
        and f: "requests s2 = requests ?s1 @ replicate (length [0..<IMG_RETRY + 1]) src"
          "files s2 = files ?s1" "stats s2 = stats ?s1" "img_counter s2 = img_counter ?s1"
          "written s2 = written ?s1"
      have "src' = src" "s' = s2\<lparr>stats := (stats s2)\<lparr>failed := failed (stats s2) + 1\<rparr>\<rparr>"
        using st t assms by simp_all
      then have "src' = src
        \<and> stats s' = (stats s)\<lparr>total := total (stats s) + 1, failed := failed (stats s) + 1\<rparr>
        \<and> files s' = files s \<and> written s' = written s
        \<and> requests s' = requests s @ replicate (IMG_RETRY + 1) src
        \<and> img_counter s' = img_counter s + 1"
        using f by simp
      then show ?thesis using nu np unfolding step_outcome_def by blast
    next
      fix s2 data j
      assume t: "try_download net src ?fn [0..<IMG_RETRY + 1] ?s1 = (True, ''assets/'' @ ?fn, s2)"
        and d: "100 \<le> length data"
        and f: "requests s2 = requests ?s1 @ replicate (Suc j) src"
          "files s2 = (files ?s1)(?fn \<mapsto> data)"
          "stats s2 = (stats ?s1)\<lparr>ok := ok (stats ?s1) + 1, bytes := bytes (stats ?s1) + int (length data)\<rparr>"
          "img_counter s2 = img_counter ?s1" "written s2 = written ?s1 @ [(?fn, data)]"
      have "src' = ''assets/'' @ ?fn" "s' = s2" using st t assms by simp_all
      then have "src' = ''assets/'' @ ?fn
        \<and> (100 \<le> length data
              \<and> stats s' = (stats s)\<lparr>total := total (stats s) + 1, ok := ok (stats s) + 1,
                                       bytes := bytes (stats s) + int (length data)\<rparr>
              \<and> files s' = (files s)(?fn \<mapsto> data)
              \<and> written s' = written s @ [(?fn, data)]
              \<and> requests s' = requests s @ replicate (Suc j) src)
        \<and> img_counter s' = img_counter s + 1"
        using f d by simp
      then show ?thesis using nu np unfolding step_outcome_def by blast
    qed
  qed
qed

lemma step_outcome_inv:
  assumes "step_outcome L src s src' s'" "stats_inv s"
  shows "stats_inv s'"
  using assms unfolding step_outcome_def
proof (elim disjE conjE exE)
  assume "s' = s" then show ?thesis using assms(2) by simp
next
  assume "stats s' = (stats s)\<lparr>total := total (stats s) + 1, skipped := skipped (stats s) + 1,
                                 ok := ok (stats s) + 1\<rparr>" "written s' = written s"
  then show ?thesis using assms(2) by (simp add: stats_inv_def)
next
  fix data j
  assume "stats s' = (stats s)\<lparr>total := total (stats s) + 1, ok := ok (stats s) + 1,
                                       bytes := bytes (stats s) + int (length data)\<rparr>"
    "written s' = written s @ [(next_filename L s src, data)]"
  then show ?thesis using assms(2) by (simp add: stats_inv_def)
next
  assume "stats s' = (stats s)\<lparr>total := total (stats s) + 1, failed := failed (stats s) + 1\<rparr>"
    "written s' = written s"
  then show ?thesis using assms(2) by (simp add: stats_inv_def)
qed



lemma images_loop_ConsE:
  assumes "images_loop L net (src # srcs) s = Inr (srcs', s')"
  obtains x s1 xs where "image_step L net src s = Inr (x, s1)"
    "images_loop L net srcs s1 = Inr (xs, s')" "srcs' = x # xs"
  using assms by (auto split: sum.splits prod.splits)

lemma images_loop_inv:
  "images_loop L net srcs s = Inr (srcs', s') \<Longrightarrow> stats_inv s \<Longrightarrow> stats_inv s'"
proof (induction srcs arbitrary: s srcs' s')
  case Nil
  then show ?case by simp
next
  case (Cons src srcs)
  from Cons.prems(1) obtain x s1 xs where st: "image_step L net src s = Inr (x, s1)"
    and lp: "images_loop L net srcs s1 = Inr (xs, s')"
    by (rule images_loop_ConsE)
  have "stats_inv s1"
    using step_outcome_inv [OF image_step_outcome [OF st] Cons.prems(2)] .
  then show ?case using Cons.IH [OF lp] by simp
qed



lemma start_state_inv: "stats_inv (start_state fs)"
  by (simp add: stats_inv_def start_state_def)

lemma untouched_local: "untouched (''assets/'' @ f)"
  by (simp add: untouched_def)



lemma step_outcome_counter:
  "step_outcome L src s src' s' \<Longrightarrow>
   img_counter s' = (if untouched src then img_counter s else img_counter s + 1)
   \<and> total (stats s') = (if untouched src then total (stats s) else total (stats s) + 1)"
  unfolding step_outcome_def by (elim disjE conjE exE) simp_all

lemma image_step_total:
  assumes "untouched src \<or> pre_try_error L src (img_counter s + 1) = None"
  shows "\<exists>r. image_step L net src s = Inr r"
proof (cases "untouched src")
  case True
  then show ?thesis by (simp add: image_step_untouched)
next
  case nu: False
  then have clear: "pre_try_error L src (img_counter s + 1) = None" using assms by blast
  show ?thesis
  proof (cases "file_present s (next_filename L s src)")
    case True
    then show ?thesis using image_step_skipped [OF nu clear True, of net] by simp
  next
    case False
    show ?thesis
      unfolding image_step_fetch [OF nu clear False, of net]
      by (auto split: prod.splits bool.splits)
  qed
qed


lemma images_loop_total:
  "pre_try_clear L (img_counter s) srcs \<Longrightarrow> \<exists>r. images_loop L net srcs s = Inr r"
proof (induction srcs arbitrary: s)
  case Nil
  then show ?case by simp
next
  case (Cons src srcs)
  have "untouched src \<or> pre_try_error L src (img_counter s + 1) = None"
    using Cons.prems by (auto split: if_splits)
  from image_step_total [OF this, of net] obtain x s1 where st: "image_step L net src s = Inr (x, s1)"
    by auto
  have c: "img_counter s1 = (if untouched src then img_counter s else img_counter s + 1)"
    using step_outcome_counter [OF image_step_outcome [OF st]] by blast
  have "pre_try_clear L (img_counter s1) srcs" using Cons.prems c by (auto split: if_splits)
  from Cons.IH [OF this] obtain r where "images_loop L net srcs s1 = Inr r" by blast
  then show ?case using st by (cases r) simp
qed

lemma images_loop_count:
  "images_loop L net srcs s = Inr (srcs', s') \<Longrightarrow>
   length srcs' = length srcs
   \<and> total (stats s') = total (stats s) + int (remote_count srcs)
   \<and> img_counter s' = img_counter s + remote_count srcs"
proof (induction srcs arbitrary: s srcs' s')
  case Nil
  then show ?case by (simp add: remote_count_def)
next
  case (Cons src srcs)
  from Cons.prems(1) obtain x s1 xs where st: "image_step L net src s = Inr (x, s1)"
    and lp: "images_loop L net srcs s1 = Inr (xs, s')" and eq: "srcs' = x # xs"
    by (rule images_loop_ConsE)
  note c = step_outcome_counter [OF image_step_outcome [OF st]]
  show ?case using Cons.IH [OF lp] c eq by (auto simp: remote_count_def)
qed

lemma images_loop_append:
  "images_loop L net (xs @ ys) s =
     (case images_loop L net xs s of
        Inl e \<Rightarrow> Inl e
      | Inr (xs', s1) \<Rightarrow>
          (case images_loop L net ys s1 of
             Inl e \<Rightarrow> Inl e
           | Inr (ys', s2) \<Rightarrow> Inr (xs' @ ys', s2)))"
  by (induction xs arbitrary: s) (auto split: sum.splits prod.splits)



subsection \<open>Claim C6: file names and the second run\<close>




subsection \<open>Claim C10: the statistics\<close>

text \<open>
  Claim C10. The statistics returned by \<open>download_images\<close> satisfy
  \<open>total = ok + failed\<close> and \<open>skipped \<le> ok\<close>, no counter is negative, \<open>bytes\<close> is the
  sum of the sizes of the files written by this run, and the images counted in \<open>ok\<close>
  but not in \<open>skipped\<close> are the files written: an image found on disk adds nothing to
  \<open>bytes\<close>.
\<close>

theorem download_images_stats:
  assumes "download_images L net mkdir_error srcs fs = Inr (srcs', s)"
  shows "total (stats s) = ok (stats s) + failed (stats s)
     \<and> skipped (stats s) \<le> ok (stats s)
     \<and> 0 \<le> total (stats s) \<and> 0 \<le> ok (stats s) \<and> 0 \<le> failed (stats s)
     \<and> 0 \<le> skipped (stats s) \<and> 0 \<le> bytes (stats s)
     \<and> bytes (stats s) = sum_list (map (\<lambda>w. int (length (snd w))) (written s))
     \<and> ok (stats s) - skipped (stats s) = int (length (written s))"
proof -
  have "images_loop L net srcs (start_state fs) = Inr (srcs', s)"
    using assms by (simp add: download_images_def split: option.splits)
  then have "stats_inv s" using start_state_inv by (rule images_loop_inv)
  then show ?thesis by (simp add: stats_inv_def)
qed

theorem download_images_stats_witness:
  "stats (snd (projr (download_images sample_lib sample_net None [sample_src, ''data:abc''] Map.empty)))
     = \<lparr>total = 1, ok = 1, failed = 0, skipped = 0, bytes = 100\<rparr>
   \<and> bytes (stats (snd (projr (download_images sample_lib sample_net None [sample_src, ''data:abc''] Map.empty))))
     = sum_list (map (\<lambda>w. int (length (snd w)))
         (written (snd (projr (download_images sample_lib sample_net None [sample_src, ''data:abc''] Map.empty)))))"
proof -
  let ?d = "download_images sample_lib sample_net None [sample_src, ''data:abc''] Map.empty"
  have "\<not> isl ?d" by code_simp
  then have h: "?d = Inr (fst (projr ?d), snd (projr ?d))"
    by (cases ?d) simp_all
  have e: "stats (snd (projr ?d)) = \<lparr>total = 1, ok = 1, failed = 0, skipped = 0, bytes = 100\<rparr>"
    by code_simp
  from download_images_stats [OF h] e show ?thesis by blast
qed

section \<open>Properties of the Markdown post-pass\<close>

lemma emit_newlines_0 [simp]: "emit_newlines 0 = []"
  by (simp add: emit_newlines_def)

lemma scan_newlines_run: "scan_newlines k (replicate n 10 @ ys) = scan_newlines (k + n) ys"
  by (induction n arbitrary: k) simp_all

lemma scan_newlines_split:
  "c \<noteq> 10 \<Longrightarrow> scan_newlines k (xs @ c # zs) = scan_newlines k (xs @ [c]) @ scan_newlines 0 zs"
  by (induction xs arbitrary: k) simp_all

lemma scan_newlines_emit:
  "ys = [] \<or> hd ys \<noteq> 10 \<Longrightarrow> scan_newlines n ys = emit_newlines n @ scan_newlines 0 ys"
  by (cases ys) auto

lemma sub_newlines_run:
  assumes "xs = [] \<or> last xs \<noteq> 10" "ys = [] \<or> hd ys \<noteq> 10"
  shows "sub_newlines (xs @ replicate n 10 @ ys) =
         sub_newlines xs @ replicate (if 3 \<le> n then 2 else n) 10 @ sub_newlines ys"
proof -
  have tail: "scan_newlines 0 (replicate n 10 @ ys) = emit_newlines n @ scan_newlines 0 ys"
    using scan_newlines_run [of 0 n ys] scan_newlines_emit [OF assms(2), of n] by simp
  show ?thesis
  proof (cases "xs = []")
    case True
    then show ?thesis using tail by (simp add: sub_newlines_def emit_newlines_def)
  next
    case False
    then obtain xs' c where xs: "xs = xs' @ [c]" by (metis rev_exhaust)
    then have c: "c \<noteq> 10" using assms(1) by simp
    have "scan_newlines 0 (xs' @ c # (replicate n 10 @ ys)) =
          scan_newlines 0 (xs' @ [c]) @ scan_newlines 0 (replicate n 10 @ ys)"
      by (rule scan_newlines_split [OF c])
    then show ?thesis using tail xs by (simp add: sub_newlines_def emit_newlines_def)
  qed
qed

lemma scan_trailing_blanks:
  "\<forall>c\<in>set ws'. blank_char c \<Longrightarrow> scan_trailing ws (ws' @ ys) = scan_trailing (ws @ ws') ys"
  by (induction ws' arbitrary: ws) simp_all

lemma scan_trailing_split:
  "\<not> blank_char c \<Longrightarrow>
   scan_trailing ws (xs @ c # zs) = scan_trailing ws (xs @ [c]) @ scan_trailing [] zs"
  by (induction xs arbitrary: ws) simp_all

lemma not_blank_newline [simp]: "\<not> blank_char 10"
  by (simp add: blank_char_def)

lemma sub_trailing_run:
  assumes "xs = [] \<or> \<not> blank_char (last xs)" "\<forall>c\<in>set ws. blank_char c"
  shows "sub_trailing (xs @ ws @ 10 # ys) = sub_trailing xs @ 10 # sub_trailing ys"
proof -
  have tail: "scan_trailing [] (ws @ 10 # ys) = 10 # scan_trailing [] ys"
    using scan_trailing_blanks [OF assms(2), of "[]" "10 # ys"] by simp
  show ?thesis
  proof (cases "xs = []")
    case True
    then show ?thesis using tail by (simp add: sub_trailing_def)
  next
    case False
    then obtain xs' c where xs: "xs = xs' @ [c]" by (metis rev_exhaust)
    then have c: "\<not> blank_char c" using assms(1) by simp
    have "scan_trailing [] (xs' @ c # (ws @ 10 # ys)) =
          scan_trailing [] (xs' @ [c]) @ scan_trailing [] (ws @ 10 # ys)"
      by (rule scan_trailing_split [OF c])
    then show ?thesis using tail xs by (simp add: sub_trailing_def)
  qed
qed

lemma join_newline_concat:
  "ps \<noteq> [] \<Longrightarrow> join_newline ps @ [10] = concat (map (\<lambda>p. p @ [10]) ps)"
  by (induction ps rule: join_newline.induct) simp_all

lemma md_header_shape:
  "md_header ttl auth src_url ptime =
     [35, 32] @ ttl @ [10, 10] @ concat (map (\<lambda>p. p @ [10]) (meta_parts auth ptime src_url))
       @ [10, 45, 45, 45, 10, 10]"
proof (cases "meta_parts auth ptime src_url = []")
  case True
  then show ?thesis by (simp add: md_header_def)
next
  case False
  then show ?thesis using join_newline_concat [OF False] by (simp add: md_header_def Let_def)
qed

lemma nbn_skip: "\<not> blank_char a \<Longrightarrow> no_blank_before_newline (a # r) = no_blank_before_newline r"
  by (cases r) simp_all

lemma nbn_run:
  "\<forall>x\<in>set ws. x \<noteq> 10 \<Longrightarrow> c \<noteq> 10 \<Longrightarrow>
   no_blank_before_newline (ws @ c # r) = no_blank_before_newline (c # r)"
proof (induction ws)
  case Nil
  then show ?case by simp
next
  case (Cons a ws)
  then show ?case by (cases ws) simp_all
qed

lemma nbn_blanks: "\<forall>x\<in>set ws. x \<noteq> 10 \<Longrightarrow> no_blank_before_newline ws"
proof (induction ws)
  case Nil
  then show ?case by simp
next
  case (Cons a ws)
  then show ?case by (cases ws) simp_all
qed

lemma blank_not_newline: "blank_char c \<Longrightarrow> c \<noteq> 10"
  by (auto simp: blank_char_def)

lemma scan_trailing_clean:
  "\<forall>c\<in>set ws. blank_char c \<Longrightarrow> no_blank_before_newline (scan_trailing ws xs)"
proof (induction xs arbitrary: ws)
  case Nil
  then show ?case using nbn_blanks [of ws] blank_not_newline by auto
next
  case (Cons c cs)
  have ws: "\<forall>x\<in>set ws. x \<noteq> 10" using Cons.prems blank_not_newline by blast
  have ih0: "no_blank_before_newline (scan_trailing [] cs)" using Cons.IH [of "[]"] by simp
  show ?case
  proof (cases "blank_char c")
    case True
    then have "\<forall>x\<in>set (ws @ [c]). blank_char x" using Cons.prems by simp
    from Cons.IH [OF this] show ?thesis using True by simp
  next
    case False
    show ?thesis
    proof (cases "c = 10")
      case True
      then show ?thesis using ih0 False by (simp add: nbn_skip)
    next
      case c: False
      have "no_blank_before_newline (ws @ c # scan_trailing [] cs) =
            no_blank_before_newline (c # scan_trailing [] cs)"
        by (rule nbn_run [OF ws c])
      then show ?thesis using False c ih0 by (simp add: nbn_skip)
    qed
  qed
qed

lemma nbn_appendD:
  "no_blank_before_newline (xs @ ys) \<Longrightarrow> no_blank_before_newline xs \<and> no_blank_before_newline ys"
proof (induction xs)
  case Nil
  then show ?case by simp
next
  case (Cons a xs)
  show ?case
  proof (cases xs)
    case Nil
    then show ?thesis using Cons.prems by (cases ys) simp_all
  next
    case (Cons b xs')
    then show ?thesis using Cons.IH Cons.prems by simp
  qed
qed

lemma strip_clean: "no_blank_before_newline s \<Longrightarrow> no_blank_before_newline (strip s)"
proof -
  assume s: "no_blank_before_newline s"
  let ?t = "dropWhile py_space s"
  have "s = takeWhile py_space s @ ?t" by simp
  then have t: "no_blank_before_newline ?t" using s nbn_appendD by metis
  have "rev ?t = takeWhile py_space (rev ?t) @ dropWhile py_space (rev ?t)" by simp
  then have "rev (rev ?t) = rev (takeWhile py_space (rev ?t) @ dropWhile py_space (rev ?t))"
    by simp
  then have "?t = rev (dropWhile py_space (rev ?t)) @ rev (takeWhile py_space (rev ?t))"
    by (simp only: rev_rev_ident rev_append)
  then have "no_blank_before_newline (rev (dropWhile py_space (rev ?t)))"
    using t nbn_appendD by metis
  then show ?thesis by (simp add: strip_def)
qed

lemma body_clean: "no_blank_before_newline (strip (sub_trailing (sub_newlines md)))"
  by (rule strip_clean) (simp add: sub_trailing_def scan_trailing_clean)

subsection \<open>Claim C9: the post-pass\<close>

text \<open>
  Claim C9, as the code has it. The result is the metadata header followed by the
  cleaned body. The header is the title line \<open># title\<close>, an empty line, one line for
  each of author, date and source that is not empty, an empty line, a rule \<open>---\<close> and
  an empty line. In the rendered body every maximal run of three or more newline
  characters, that is of two or more empty lines, is replaced by two newlines, and a
  run of one or two newlines is kept. Then every run of spaces and tabs directly
  before a newline is removed, and white space is stripped from both ends: in the
  cleaned body no space or tab stands before a newline.
\<close>

theorem markdown_post_pass:
  "html_to_markdown md ttl auth src_url ptime =
     md_header ttl auth src_url ptime @ strip (sub_trailing (sub_newlines md))
   \<and> md_header ttl auth src_url ptime =
       [35, 32] @ ttl @ [10, 10] @ concat (map (\<lambda>p. p @ [10]) (meta_parts auth ptime src_url))
         @ [10, 45, 45, 45, 10, 10]
   \<and> ((xs = [] \<or> last xs \<noteq> 10) \<and> (ys = [] \<or> hd ys \<noteq> 10) \<longrightarrow>
        sub_newlines (xs @ replicate n 10 @ ys) =
        sub_newlines xs @ replicate (if 3 \<le> n then 2 else n) 10 @ sub_newlines ys)
   \<and> ((xs = [] \<or> \<not> blank_char (last xs)) \<and> (\<forall>c\<in>set ws. blank_char c) \<longrightarrow>
        sub_trailing (xs @ ws @ 10 # ys) = sub_trailing xs @ 10 # sub_trailing ys)
   \<and> no_blank_before_newline (strip (sub_trailing (sub_newlines md)))"
proof (intro conjI impI)
  show "html_to_markdown md ttl auth src_url ptime =
     md_header ttl auth src_url ptime @ strip (sub_trailing (sub_newlines md))"
    by (simp add: html_to_markdown_def)
  show "md_header ttl auth src_url ptime =
       [35, 32] @ ttl @ [10, 10] @ concat (map (\<lambda>p. p @ [10]) (meta_parts auth ptime src_url))
         @ [10, 45, 45, 45, 10, 10]"
    by (rule md_header_shape)
  show "no_blank_before_newline (strip (sub_trailing (sub_newlines md)))"
    by (rule body_clean)
next
  assume "(xs = [] \<or> last xs \<noteq> 10) \<and> (ys = [] \<or> hd ys \<noteq> 10)"
  then show "sub_newlines (xs @ replicate n 10 @ ys) =
        sub_newlines xs @ replicate (if 3 \<le> n then 2 else n) 10 @ sub_newlines ys"
    using sub_newlines_run by blast
next
  assume "(xs = [] \<or> \<not> blank_char (last xs)) \<and> (\<forall>c\<in>set ws. blank_char c)"
  then show "sub_trailing (xs @ ws @ 10 # ys) = sub_trailing xs @ 10 # sub_trailing ys"
    using sub_trailing_run by blast
qed

theorem markdown_post_pass_witness:
  "sub_newlines ([97] @ replicate 4 10 @ [98]) = [97, 10, 10, 98]
   \<and> sub_newlines ([97] @ replicate 2 10 @ [98]) = [97, 10, 10, 98]
   \<and> sub_trailing ([97] @ [32, 9] @ 10 # [98]) = [97, 10, 98]
   \<and> html_to_markdown [97, 32, 10, 10, 10, 10, 98] [84] [65] [] [] =
       [35, 32, 84, 10, 10, 0x4F5C, 0x8005, 58, 32, 65, 10, 10, 45, 45, 45, 10, 10, 97, 10, 10, 98]"
proof -
  have h1: "([97::nat] = [] \<or> last [97::nat] \<noteq> 10) \<and> ([98::nat] = [] \<or> hd [98::nat] \<noteq> 10)"
    by simp
  have h2: "([97::nat] = [] \<or> \<not> blank_char (last [97])) \<and> (\<forall>c\<in>set [32, 9]. blank_char c)"
    by (simp add: blank_char_def)
  have e: "sub_newlines [97] = [97]" "sub_newlines [98] = [98]" "sub_trailing [97] = [97]"
    "sub_trailing [98] = [98]"
    by (simp_all add: sub_newlines_def sub_trailing_def blank_char_def)
  have e2: "strip (sub_trailing (sub_newlines [97, 32, 10, 10, 10, 10, 98])) = [97, 10, 10, 98]"
    by (simp add: sub_newlines_def sub_trailing_def blank_char_def emit_newlines_def strip_def
        py_space_def numeral_2_eq_2)
  have e3: "meta_parts [65] [] [] = [[0x4F5C, 0x8005, 58, 32, 65]]"
    by (simp add: meta_parts_def author_label_def)
  note t4 = markdown_post_pass [of "[97, 32, 10, 10, 10, 10, 98]" "[84]" "[65]" "[]" "[]" "[97]" "[98]" 4 "[32, 9]"]
  note t2 = markdown_post_pass [of "[97, 32, 10, 10, 10, 10, 98]" "[84]" "[65]" "[]" "[]" "[97]" "[98]" 2 "[32, 9]"]
  have a: "sub_newlines ([97] @ replicate 4 10 @ [98]) =
      sub_newlines [97] @ replicate (if 3 \<le> (4::nat) then 2 else 4) 10 @ sub_newlines [98]"
    using t4 h1 by blast
  have b: "sub_newlines ([97] @ replicate 2 10 @ [98]) =
      sub_newlines [97] @ replicate (if 3 \<le> (2::nat) then 2 else 2) 10 @ sub_newlines [98]"
    using t2 h1 by blast
  have c: "sub_trailing ([97] @ [32, 9] @ 10 # [98]) = sub_trailing [97] @ 10 # sub_trailing [98]"
    using t4 h2 by blast
  have d1: "html_to_markdown [97, 32, 10, 10, 10, 10, 98] [84] [65] [] [] =
      md_header [84] [65] [] [] @ strip (sub_trailing (sub_newlines [97, 32, 10, 10, 10, 10, 98]))"
    using t4 by blast
  have d2: "md_header [84] [65] [] [] =
      [35, 32] @ [84] @ [10, 10] @ concat (map (\<lambda>p. p @ [10]) (meta_parts [65] [] []))
         @ [10, 45, 45, 45, 10, 10]"
    using t4 by blast
  show ?thesis
    unfolding a b c d1 d2 e e2 e3 by (simp add: numeral_2_eq_2)
qed

text \<open>
  The claim as stated keeps runs of fewer than three blank lines. A body with two blank
  lines between two letters comes out with one.
\<close>

theorem two_blank_lines_counterexample:
  "blank_runs 0 (split_lines [] [97, 10, 10, 10, 98]) = [2]
   \<and> html_to_markdown [97, 10, 10, 10, 98] [84] [] [] [] =
       [35, 32, 84, 10, 10, 10, 45, 45, 45, 10, 10] @ [97, 10, 10, 98]
   \<and> blank_runs 0 (split_lines [] [97, 10, 10, 98]) = [1]"
  by (simp add: html_to_markdown_def md_header_def meta_parts_def sub_newlines_def sub_trailing_def
      blank_char_def emit_newlines_def strip_def py_space_def numeral_2_eq_2)

section \<open>Properties of the extractor\<close>

lemma add_error_fields [simp]:
  "r_title (add_error n r) = r_title r" "r_author (add_error n r) = r_author r"
  "r_publish_time (add_error n r) = r_publish_time r" "r_source_url (add_error n r) = r_source_url r"
  "r_dir_name (add_error n r) = r_dir_name r" "r_html_path (add_error n r) = r_html_path r"
  "r_md_path (add_error n r) = r_md_path r" "r_img_stats (add_error n r) = r_img_stats r"
  "r_errors (add_error n r) = r_errors r @ [n]"
  by (simp_all add: add_error_def)

lemma save_raw_fields [simp]:
  "r_title (save_raw E r) = r_title r" "r_author (save_raw E r) = r_author r"
  "r_publish_time (save_raw E r) = r_publish_time r" "r_source_url (save_raw E r) = r_source_url r"
  "r_errors (save_raw E r) =
     r_errors r @ (case write_raw_error E of Some e \<Rightarrow> [asc ''save raw.html: '' @ e] | None \<Rightarrow> [])"
  by (simp_all add: save_raw_def split: option.splits)

lemma images_step_fields [simp]:
  "r_title (images_step E srcs d r) = r_title r" "r_author (images_step E srcs d r) = r_author r"
  "r_publish_time (images_step E srcs d r) = r_publish_time r"
  "r_source_url (images_step E srcs d r) = r_source_url r"
  "r_errors (images_step E srcs d r) =
     r_errors r @ (if d then (case download_images (images_lib E) (images_net E) (assets_mkdir_error E)
                                     srcs (assets_files E) of
                                Inl e \<Rightarrow> [asc ''image download: '' @ asc e]
                              | Inr res \<Rightarrow> []) else [])"
  "r_dir_name (images_step E srcs d r) = r_dir_name r"
  "r_html_path (images_step E srcs d r) = r_html_path r"
  "r_md_path (images_step E srcs d r) = r_md_path r"
  by (simp_all add: images_step_def split: sum.splits prod.splits)

lemma html_step_fields [simp]:
  "r_title (html_step E p r) = r_title r" "r_author (html_step E p r) = r_author r"
  "r_publish_time (html_step E p r) = r_publish_time r" "r_source_url (html_step E p r) = r_source_url r"
  "r_errors (html_step E p r) =
     r_errors r @ (case build_html_error E of Some e \<Rightarrow> [asc ''build HTML: '' @ e] | None \<Rightarrow> [])"
  by (simp_all add: html_step_def split: option.splits)

lemma markdown_step_fields [simp]:
  "r_title (markdown_step E p r) = r_title r" "r_author (markdown_step E p r) = r_author r"
  "r_publish_time (markdown_step E p r) = r_publish_time r"
  "r_source_url (markdown_step E p r) = r_source_url r"
  "r_errors (markdown_step E p r) =
     r_errors r @ (case build_markdown_error E of Some e \<Rightarrow> [asc ''build Markdown: '' @ e] | None \<Rightarrow> [])"
  by (simp_all add: markdown_step_def split: option.splits)

lemma with_metadata_raised:
  "metadata L raw = Inl e \<Longrightarrow>
   with_metadata L raw =
     empty_result\<lparr>r_title := asc ''Untitled'', r_errors := [asc ''metadata extraction: '' @ e]\<rparr>"
  by (simp add: with_metadata_def add_error_def empty_result_def)

lemma with_metadata_fields:
  "r_title (with_metadata L raw) = (case metadata L raw of Inl e \<Rightarrow> asc ''Untitled'' | Inr (t, a, p, u) \<Rightarrow> t)"
  "r_author (with_metadata L raw) = (case metadata L raw of Inl e \<Rightarrow> [] | Inr (t, a, p, u) \<Rightarrow> a)"
  "r_publish_time (with_metadata L raw) = (case metadata L raw of Inl e \<Rightarrow> [] | Inr (t, a, p, u) \<Rightarrow> p)"
  "r_source_url (with_metadata L raw) = (case metadata L raw of Inl e \<Rightarrow> [] | Inr (t, a, p, u) \<Rightarrow> u)"
  "r_errors (with_metadata L raw) =
     (case metadata L raw of Inl e \<Rightarrow> [asc ''metadata extraction: '' @ e] | Inr m \<Rightarrow> [])"
  "r_dir_name (with_metadata L raw) = []" "r_html_path (with_metadata L raw) = []"
  "r_md_path (with_metadata L raw) = []" "r_img_stats (with_metadata L raw) = None"
  by (simp_all add: with_metadata_def empty_result_def split: sum.splits prod.splits)

lemma extract_article_content_raised:
  "extract_content_soup L raw = Inl e \<Longrightarrow>
   extract_article L E raw out sq d = Inr (add_error (asc ''content extraction: '' @ e) (with_metadata L raw))"
  by (simp add: extract_article_def)

lemma extract_article_mkdir_raised:
  "extract_content_soup L raw = Inr soup \<Longrightarrow> article_mkdir_error E = Some e \<Longrightarrow>
   extract_article L E raw out sq d = Inl e"
  by (simp add: extract_article_def Let_def)

lemma extract_article_runs:
  assumes "extract_content_soup L raw = Inr soup" "article_mkdir_error E = None"
  shows "\<exists>r. extract_article L E raw out sq d = Inr r
     \<and> r_title r = r_title (with_metadata L raw) \<and> r_author r = r_author (with_metadata L raw)
     \<and> r_publish_time r = r_publish_time (with_metadata L raw)
     \<and> r_source_url r = r_source_url (with_metadata L raw)
     \<and> r_errors r = r_errors (with_metadata L raw) @ later_notes E (soup_img_srcs L soup) d"
  using assms by (simp add: extract_article_def Let_def later_notes_def)

lemma extract_article_returns:
  assumes "article_mkdir_error E = None \<or> (\<exists>e. extract_content_soup L raw = Inl e)"
  shows "\<exists>r. extract_article L E raw out sq d = Inr r
     \<and> r_title r = r_title (with_metadata L raw) \<and> r_author r = r_author (with_metadata L raw)
     \<and> r_publish_time r = r_publish_time (with_metadata L raw)
     \<and> r_source_url r = r_source_url (with_metadata L raw)
     \<and> r_errors r = expected_notes L E raw d"
proof (cases "extract_content_soup L raw")
  case (Inl e)
  then show ?thesis
    by (simp add: extract_article_content_raised expected_notes_def with_metadata_fields(5))
next
  case (Inr soup)
  then have "article_mkdir_error E = None" using assms by auto
  from extract_article_runs [OF Inr this, of out sq d] show ?thesis
    using Inr by (auto simp: expected_notes_def with_metadata_fields(5))
qed

subsection \<open>Claim C5: the error boundary\<close>

text \<open>
  Claim C5, as the code has it. Whenever the article directory can be created, or the
  parsing of the content raises, \<open>extract_article\<close> returns a result, and its error
  list holds exactly one note for each block that raised, in the order of the blocks.
  When the metadata block raises, the title is \<open>Untitled\<close> and author, date and
  source are empty, with a note; otherwise the four fields are the values extracted.
  When the content parsing raises, the result is returned at once with the metadata
  only, with a note. A page without a title signal and without the title landmark gets
  the title \<open>Untitled\<close>, and a page without a content container gets the empty tree:
  neither raises and neither adds a note.
\<close>

theorem extract_article_boundary:
  "(article_mkdir_error E = None \<or> (\<exists>e. extract_content_soup L raw = Inl e) \<longrightarrow>
      (\<exists>r. extract_article L E raw out sq d = Inr r
         \<and> r_errors r = expected_notes L E raw d
         \<and> (\<forall>e. metadata L raw = Inl e \<longrightarrow>
               r_title r = asc ''Untitled'' \<and> r_author r = [] \<and> r_publish_time r = []
             \<and> r_source_url r = [])
         \<and> (\<forall>t a p u. metadata L raw = Inr (t, a, p, u) \<longrightarrow>
               r_title r = t \<and> r_author r = a \<and> r_publish_time r = p \<and> r_source_url r = u)
         \<and> (\<forall>e. extract_content_soup L raw = Inl e \<longrightarrow>
               r_dir_name r = [] \<and> r_html_path r = [] \<and> r_md_path r = [] \<and> r_img_stats r = None)))
   \<and> (re_msg_title L raw = None \<and> select_h1_title L raw = Inr None \<longrightarrow>
        extract_title L raw = Inr (asc ''Untitled''))
   \<and> (find_js_content L raw = Inr None \<and> select_rich_media_content L raw = Inr None \<longrightarrow>
        extract_content_soup L raw = Inr (empty_soup L))"
proof (intro conjI impI)
  assume a: "article_mkdir_error E = None \<or> (\<exists>e. extract_content_soup L raw = Inl e)"
  from extract_article_returns [OF a, of out sq d]
  obtain r where r: "extract_article L E raw out sq d = Inr r"
    "r_title r = r_title (with_metadata L raw)" "r_author r = r_author (with_metadata L raw)"
    "r_publish_time r = r_publish_time (with_metadata L raw)"
    "r_source_url r = r_source_url (with_metadata L raw)"
    "r_errors r = expected_notes L E raw d"
    by blast
  have m1: "\<forall>e. metadata L raw = Inl e \<longrightarrow>
               r_title r = asc ''Untitled'' \<and> r_author r = [] \<and> r_publish_time r = []
             \<and> r_source_url r = []"
    using r(2-5) by (simp add: with_metadata_fields)
  have m2: "\<forall>t a p u. metadata L raw = Inr (t, a, p, u) \<longrightarrow>
               r_title r = t \<and> r_author r = a \<and> r_publish_time r = p \<and> r_source_url r = u"
    using r(2-5) by (simp add: with_metadata_fields)
  have m3: "\<forall>e. extract_content_soup L raw = Inl e \<longrightarrow>
               r_dir_name r = [] \<and> r_html_path r = [] \<and> r_md_path r = [] \<and> r_img_stats r = None"
  proof (intro allI impI)
    fix e assume "extract_content_soup L raw = Inl e"
    from extract_article_content_raised [OF this, of E out sq d] r(1)
    have "r = add_error (asc ''content extraction: '' @ e) (with_metadata L raw)" by simp
    then show "r_dir_name r = [] \<and> r_html_path r = [] \<and> r_md_path r = [] \<and> r_img_stats r = None"
      by (simp add: with_metadata_fields)
  qed
  show "\<exists>r. extract_article L E raw out sq d = Inr r
         \<and> r_errors r = expected_notes L E raw d
         \<and> (\<forall>e. metadata L raw = Inl e \<longrightarrow>
               r_title r = asc ''Untitled'' \<and> r_author r = [] \<and> r_publish_time r = []
             \<and> r_source_url r = [])
         \<and> (\<forall>t a p u. metadata L raw = Inr (t, a, p, u) \<longrightarrow>
               r_title r = t \<and> r_author r = a \<and> r_publish_time r = p \<and> r_source_url r = u)
         \<and> (\<forall>e. extract_content_soup L raw = Inl e \<longrightarrow>
               r_dir_name r = [] \<and> r_html_path r = [] \<and> r_md_path r = [] \<and> r_img_stats r = None)"
    using r(1,6) m1 m2 m3 by blast
next
  assume "re_msg_title L raw = None \<and> select_h1_title L raw = Inr None"
  then show "extract_title L raw = Inr (asc ''Untitled'')"
    by (simp add: extract_title_def)
next
  assume "find_js_content L raw = Inr None \<and> select_rich_media_content L raw = Inr None"
  then show "extract_content_soup L raw = Inr (empty_soup L)"
    by (simp add: extract_content_soup_def)
qed

theorem extract_article_boundary_witness:
  "(\<exists>r. extract_article overflow_page_lib ok_env [] (asc ''out'') 3 True = Inr r
       \<and> r_errors r = [asc ''metadata extraction: timestamp out of range'']
       \<and> r_title r = asc ''Untitled'' \<and> r_author r = [] \<and> r_publish_time r = []
       \<and> r_source_url r = [])
   \<and> extract_title blank_page_lib [] = Inr (asc ''Untitled'')
   \<and> extract_content_soup blank_page_lib [] = Inr ()"
proof -
  have h1: "article_mkdir_error ok_env = None \<or> (\<exists>e. extract_content_soup overflow_page_lib [] = Inl e)"
    by (simp add: ok_env_def)
  have h2: "metadata overflow_page_lib [] = Inl (asc ''timestamp out of range'')"
    by code_simp
  have h3: "expected_notes overflow_page_lib ok_env [] True = [asc ''metadata extraction: timestamp out of range'']"
    by code_simp
  have h4: "re_msg_title blank_page_lib [] = None \<and> select_h1_title blank_page_lib [] = Inr None"
    "find_js_content blank_page_lib [] = Inr None \<and> select_rich_media_content blank_page_lib [] = Inr None"
    "empty_soup blank_page_lib = ()"
    by (simp_all add: blank_page_lib_def)
  note t1 = extract_article_boundary [of ok_env overflow_page_lib "[]" "asc ''out''" 3 True]
  note t2 = extract_article_boundary [of ok_env blank_page_lib "[]" "asc ''out''" 3 True]
  from t1 h1 h2 have a: "\<exists>r. extract_article overflow_page_lib ok_env [] (asc ''out'') 3 True = Inr r
       \<and> r_errors r = expected_notes overflow_page_lib ok_env [] True
       \<and> r_title r = asc ''Untitled'' \<and> r_author r = [] \<and> r_publish_time r = []
       \<and> r_source_url r = []"
    by blast
  from t2 h4 have b: "extract_title blank_page_lib [] = Inr (asc ''Untitled'')"
    "extract_content_soup blank_page_lib [] = Inr ()"
    by simp_all
  show ?thesis using a b unfolding h3 by blast
qed

text \<open>
  The claim as stated gives the metadata-only defaults with an error note when there
  is no title signal or landmark and when the content container is missing. On a page
  with neither, the function goes through every step, sets the directory and both
  paths, and returns no note.
\<close>

theorem missing_container_counterexample:
  "re_msg_title blank_page_lib [] = None \<and> select_h1_title blank_page_lib [] = Inr None
   \<and> find_js_content blank_page_lib [] = Inr None
   \<and> select_rich_media_content blank_page_lib [] = Inr None
   \<and> extract_article blank_page_lib ok_env [] (asc ''out'') 0 True =
      Inr \<lparr>r_title = asc ''Untitled'', r_author = [], r_publish_time = [], r_source_url = [],
           r_dir_name = asc ''Untitled'', r_html_path = asc ''out/Untitled/article.html'',
           r_md_path = asc ''out/Untitled/article.md'',
           r_img_stats = Some \<lparr>total = 0, ok = 0, failed = 0, skipped = 0, bytes = 0\<rparr>,
           r_errors = []\<rparr>"
  by code_simp

section \<open>Failed images and the rest of the article\<close>

lemma try_download_all_fail:
  assumes "\<forall>j<length as. \<not> usable (net (length (requests s) + j))"
  shows "try_download net src fn as s =
     (False, src, s\<lparr>requests := requests s @ replicate (length as) src,
                    naps := naps s @ map Suc (filter (\<lambda>a. a < IMG_RETRY) as)\<rparr>)"
  using assms
proof (induction as arbitrary: s)
  case Nil
  then show ?case by simp
next
  case (Cons a rest)
  let ?s1 = "nap a (s\<lparr>requests := requests s @ [src]\<rparr>)"
  have "\<not> usable (net (length (requests s) + 0))" using Cons.prems by auto
  then have step: "try_download net src fn (a # rest) s = try_download net src fn rest ?s1"
    by (cases "net (length (requests s))") (simp_all add: Let_def)
  have "\<forall>j<length rest. \<not> usable (net (length (requests ?s1) + j))"
  proof (intro allI impI)
    fix j assume "j < length rest"
    then have "\<not> usable (net (length (requests s) + Suc j))" using Cons.prems by auto
    then show "\<not> usable (net (length (requests ?s1) + j))" by simp
  qed
  from Cons.IH [OF this] show ?case
    unfolding step by (simp add: nap_def replicate_app_Cons_same)
qed

lemma try_download_first_usable:
  assumes "\<forall>i<length pre. \<not> usable (net (length (requests s) + i))"
    and "net (length (requests s) + length pre) = Body data" "100 \<le> length data"
  shows "try_download net src fn (pre @ a # rest) s =
     (True, ''assets/'' @ fn,
      s\<lparr>requests := requests s @ replicate (Suc (length pre)) src,
        naps := naps s @ map Suc (filter (\<lambda>a. a < IMG_RETRY) pre),
        files := (files s)(fn \<mapsto> data),
        written := written s @ [(fn, data)],
        stats := (stats s)\<lparr>ok := ok (stats s) + 1, bytes := bytes (stats s) + int (length data)\<rparr>\<rparr>)"
  using assms
proof (induction pre arbitrary: s)
  case Nil
  then show ?case
    apply (simp add: Let_def)
    apply (rule dl_state.equality)
    apply (simp_all add: fun_upd_def)
    done
next
  case (Cons b pre)
  let ?s1 = "nap b (s\<lparr>requests := requests s @ [src]\<rparr>)"
  have "\<not> usable (net (length (requests s) + 0))" using Cons.prems(1) by auto
  then have step: "try_download net src fn ((b # pre) @ a # rest) s
      = try_download net src fn (pre @ a # rest) ?s1"
    by (cases "net (length (requests s))") (simp_all add: Let_def)
  have 1: "\<forall>i<length pre. \<not> usable (net (length (requests ?s1) + i))"
  proof (intro allI impI)
    fix i assume "i < length pre"
    then have "\<not> usable (net (length (requests s) + Suc i))" using Cons.prems(1) by auto
    then show "\<not> usable (net (length (requests ?s1) + i))" by simp
  qed
  have 2: "net (length (requests ?s1) + length pre) = Body data"
    using Cons.prems(2) by simp
  note ih = Cons.IH [OF 1 2 Cons.prems(3)]
  show ?case
    unfolding step ih
    apply (simp only: prod.inject refl simp_thms)
    apply (rule dl_state.equality)
    apply (simp_all add: nap_def replicate_app_Cons_same)
    done
qed

lemma image_step_given_up:
  assumes "\<not> untouched src" "pre_try_error L src (img_counter s + 1) = None"
    and "\<not> file_present s (next_filename L s src)"
    and "\<forall>j\<le>IMG_RETRY. \<not> usable (net (length (requests s) + j))"
  shows "image_step L net src s = Inr (src, given_up src s)"
proof -
  let ?s1 = "s\<lparr>stats := (stats s)\<lparr>total := total (stats s) + 1\<rparr>, img_counter := img_counter s + 1\<rparr>"
  have "\<forall>j<length [0..<IMG_RETRY + 1]. \<not> usable (net (length (requests ?s1) + j))"
    using assms(4) by simp
  note t = try_download_all_fail [OF this, of src "next_filename L s src"]
  have f: "filter (\<lambda>a. a < IMG_RETRY) [0..<IMG_RETRY + 1] = [0..<IMG_RETRY]"
    by (simp add: IMG_RETRY_def upt_rec)
  show ?thesis
    unfolding image_step_fetch [OF assms(1-3), of net] t
    by (simp add: given_up_def f)
qed

lemma image_step_fetched:
  assumes "\<not> untouched src" "pre_try_error L src (img_counter s + 1) = None"
    and "\<not> file_present s (next_filename L s src)"
    and "j \<le> IMG_RETRY" "\<forall>i<j. \<not> usable (net (length (requests s) + i))"
    and "net (length (requests s) + j) = Body data" "100 \<le> length data"
  shows "image_step L net src s = Inr (''assets/'' @ next_filename L s src, fetched L src j data s)"
proof -
  let ?s1 = "s\<lparr>stats := (stats s)\<lparr>total := total (stats s) + 1\<rparr>, img_counter := img_counter s + 1\<rparr>"
  have sp: "[0..<IMG_RETRY + 1] = [0..<j] @ j # [Suc j..<IMG_RETRY + 1]"
  proof -
    have "j = 0 \<or> j = 1 \<or> j = 2" using assms(4) by (auto simp: IMG_RETRY_def)
    then show ?thesis by (elim disjE) (simp_all add: IMG_RETRY_def upt_rec)
  qed
  have a: "\<forall>i<length [0..<j]. \<not> usable (net (length (requests ?s1) + i))"
    using assms(5) by simp
  have b: "net (length (requests ?s1) + length [0..<j]) = Body data" using assms(6) by simp
  note t = try_download_first_usable [OF a b assms(7), of src "next_filename L s src" j "[Suc j..<IMG_RETRY + 1]"]
  have f: "filter (\<lambda>a. a < IMG_RETRY) [0..<j] = [0..<j]"
    using assms(4) by (auto simp: filter_id_conv)
  show ?thesis
    unfolding image_step_fetch [OF assms(1-3), of net] sp t
    by (simp add: fetched_def f)
qed

lemma images_loop_continues:
  assumes "images_loop L net xs s = Inr (xs', s1)" "image_step L net src s1 = Inr (src', s2)"
  shows "images_loop L net (xs @ src # ys) s =
     (case images_loop L net ys s2 of
        Inl e \<Rightarrow> Inl e
      | Inr (ys', s3) \<Rightarrow> Inr (xs' @ src' # ys', s3))"
  using assms by (simp add: images_loop_append split: sum.splits prod.splits)

lemma step_outcome_kept:
  assumes "step_outcome L src s src' s'"
  shows "failed (stats s') = failed (stats s) + (if \<not> untouched src \<and> src' = src then 1 else 0)"
proof -
  have "\<not> untouched src \<Longrightarrow> ''assets/'' @ f \<noteq> src" for f
    using untouched_local [of f] by auto
  then show ?thesis
    using assms unfolding step_outcome_def by (elim disjE conjE exE) auto
qed

lemma images_loop_kept:
  "images_loop L net srcs s = Inr (srcs', s') \<Longrightarrow>
   failed (stats s') = failed (stats s) + int (kept_remote srcs srcs')"
proof (induction srcs arbitrary: s srcs' s')
  case Nil
  then show ?case by (simp add: kept_remote_def)
next
  case (Cons src srcs)
  from Cons.prems(1) obtain x s1 xs where st: "image_step L net src s = Inr (x, s1)"
    and lp: "images_loop L net srcs s1 = Inr (xs, s')" and eq: "srcs' = x # xs"
    by (rule images_loop_ConsE)
  note c = step_outcome_kept [OF image_step_outcome [OF st]]
  show ?case using Cons.IH [OF lp] c eq by (auto simp: kept_remote_def)
qed

lemma download_images_visits:
  assumes "pre_try_clear L 0 srcs"
  shows "\<exists>srcs' s'. download_images L net None srcs fs = Inr (srcs', s')
     \<and> length srcs' = length srcs \<and> total (stats s') = int (remote_count srcs)
     \<and> failed (stats s') = int (kept_remote srcs srcs')"
proof -
  have "pre_try_clear L (img_counter (start_state fs)) srcs"
    using assms by (simp add: start_state_def)
  from images_loop_total [OF this, of net] obtain srcs' s' where
    r: "images_loop L net srcs (start_state fs) = Inr (srcs', s')" by (metis surj_pair)
  from images_loop_count [OF r] images_loop_kept [OF r]
  have "length srcs' = length srcs" "total (stats s') = int (remote_count srcs)"
    "failed (stats s') = int (kept_remote srcs srcs')"
    by (simp_all add: start_state_def)
  then show ?thesis using r by (simp add: download_images_def)
qed

lemma extract_article_images:
  assumes "extract_content_soup PL raw = Inr soup" "article_mkdir_error E = None"
  shows "\<exists>r r0. extract_article PL E raw out sq True = Inr r
     \<and> extract_article PL E raw out sq False = Inr r0
     \<and> r_title r = r_title r0 \<and> r_author r = r_author r0
     \<and> r_publish_time r = r_publish_time r0 \<and> r_source_url r = r_source_url r0
     \<and> r_dir_name r = r_dir_name r0
     \<and> r_html_path r = r_html_path r0 \<and> r_md_path r = r_md_path r0
     \<and> r_errors r = expected_notes PL E raw True
     \<and> (case download_images (images_lib E) (images_net E) (assets_mkdir_error E)
                (soup_img_srcs PL soup) (assets_files E) of
           Inl e \<Rightarrow> r_img_stats r = None
         | Inr (srcs', st) \<Rightarrow> r_img_stats r = Some (stats st) \<and> r_errors r = r_errors r0)"
  using assms
  by (simp add: extract_article_def Let_def expected_notes_def later_notes_def with_metadata_fields
      images_step_def html_step_def markdown_step_def save_raw_def add_error_def
      split: sum.splits option.splits prod.splits)

subsection \<open>Claim C7: a failed image and the rest of the article\<close>

text \<open>
  Claim C7. Let the loop of \<open>download_images\<close> have reached, after any nodes \<open>xs\<close>, a
  remote node \<open>src\<close> whose file is not on disk, the calls before the \<^verbatim>\<open>try\<close> block
  raising nothing. If none of the \<open>IMG_RETRY + 1\<close> responses is usable, the node keeps
  its source, \<open>total\<close> and \<open>failed\<close> go up by one, three requests were made and no file
  written, and the loop goes on with the nodes \<open>ys\<close> that follow, from that state. If
  attempt \<open>j\<close> is the first with a usable body, the source becomes the local path
  \<open>assets/<filename>\<close>, the file is written, \<open>ok\<close> and \<open>bytes\<close> are updated, and the
  loop goes on likewise. A failed request is not usable, and a body is usable exactly
  from 100 bytes on. Whatever the network answers, when no call before a \<^verbatim>\<open>try\<close>
  block raises, \<open>download_images\<close> returns, with one source for every node, every
  remote node counted in \<open>total\<close>, and \<open>failed\<close> the number of remote nodes that kept
  their source. And whatever \<open>download_images\<close> does, whether it returns or raises (as
  it does on a source that \<^verbatim>\<open>urlparse\<close> rejects), \<open>extract_article\<close> returns once the
  content is parsed and the article directory exists, with the metadata, the directory
  and the paths of the HTML and Markdown files of the run without images; the
  statistics are in the result when \<open>download_images\<close> returned, and a note
  \<open>image download\<close> is in the error list when it raised.
\<close>

theorem image_failure_degrades:
  "(images_loop L net xs (start_state fs) = Inr (xs', s1) \<and> \<not> untouched src
      \<and> pre_try_error L src (img_counter s1 + 1) = None
      \<and> \<not> file_present s1 (next_filename L s1 src) \<longrightarrow>
      ((\<forall>j\<le>IMG_RETRY. \<not> usable (net (length (requests s1) + j))) \<longrightarrow>
          image_step L net src s1 = Inr (src, given_up src s1)
        \<and> download_images L net None (xs @ src # ys) fs =
            (case images_loop L net ys (given_up src s1) of
               Inl e \<Rightarrow> Inl e
             | Inr (ys', s3) \<Rightarrow> Inr (xs' @ src # ys', s3)))
    \<and> (\<forall>j data. j \<le> IMG_RETRY \<and> (\<forall>i<j. \<not> usable (net (length (requests s1) + i)))
            \<and> net (length (requests s1) + j) = Body data \<and> 100 \<le> length data \<longrightarrow>
          image_step L net src s1
            = Inr (''assets/'' @ next_filename L s1 src, fetched L src j data s1)
        \<and> download_images L net None (xs @ src # ys) fs =
            (case images_loop L net ys (fetched L src j data s1) of
               Inl e \<Rightarrow> Inl e
             | Inr (ys', s3) \<Rightarrow> Inr (xs' @ (''assets/'' @ next_filename L s1 src) # ys', s3))))
   \<and> \<not> usable RequestFailed \<and> (\<forall>data. usable (Body data) \<longleftrightarrow> 100 \<le> length data)
   \<and> (pre_try_clear L 0 srcs \<longrightarrow>
        (\<exists>srcs' s'. download_images L net None srcs fs = Inr (srcs', s')
           \<and> length srcs' = length srcs \<and> total (stats s') = int (remote_count srcs)
           \<and> failed (stats s') = int (kept_remote srcs srcs')))
   \<and> (extract_content_soup PL raw = Inr soup \<and> article_mkdir_error E = None \<longrightarrow>
        (\<exists>r r0. extract_article PL E raw out sq True = Inr r
           \<and> extract_article PL E raw out sq False = Inr r0
           \<and> r_title r = r_title r0 \<and> r_author r = r_author r0
           \<and> r_publish_time r = r_publish_time r0 \<and> r_source_url r = r_source_url r0
           \<and> r_dir_name r = r_dir_name r0
           \<and> r_html_path r = r_html_path r0 \<and> r_md_path r = r_md_path r0
           \<and> r_errors r = expected_notes PL E raw True
           \<and> (case download_images (images_lib E) (images_net E) (assets_mkdir_error E)
                      (soup_img_srcs PL soup) (assets_files E) of
                 Inl e \<Rightarrow> r_img_stats r = None
               | Inr (srcs', st) \<Rightarrow> r_img_stats r = Some (stats st) \<and> r_errors r = r_errors r0)))"
proof -
  have A: "((\<forall>j\<le>IMG_RETRY. \<not> usable (net (length (requests s1) + j))) \<longrightarrow>
          image_step L net src s1 = Inr (src, given_up src s1)
        \<and> download_images L net None (xs @ src # ys) fs =
            (case images_loop L net ys (given_up src s1) of
               Inl e \<Rightarrow> Inl e
             | Inr (ys', s3) \<Rightarrow> Inr (xs' @ src # ys', s3)))
    \<and> (\<forall>j data. j \<le> IMG_RETRY \<and> (\<forall>i<j. \<not> usable (net (length (requests s1) + i)))
            \<and> net (length (requests s1) + j) = Body data \<and> 100 \<le> length data \<longrightarrow>
          image_step L net src s1
            = Inr (''assets/'' @ next_filename L s1 src, fetched L src j data s1)
        \<and> download_images L net None (xs @ src # ys) fs =
            (case images_loop L net ys (fetched L src j data s1) of
               Inl e \<Rightarrow> Inl e
             | Inr (ys', s3) \<Rightarrow> Inr (xs' @ (''assets/'' @ next_filename L s1 src) # ys', s3)))"
    if pre: "images_loop L net xs (start_state fs) = Inr (xs', s1)" and nu: "\<not> untouched src"
      and clear: "pre_try_error L src (img_counter s1 + 1) = None"
      and absent: "\<not> file_present s1 (next_filename L s1 src)"
  proof (intro conjI impI allI)
    assume f: "\<forall>j\<le>IMG_RETRY. \<not> usable (net (length (requests s1) + j))"
    show st: "image_step L net src s1 = Inr (src, given_up src s1)"
      by (rule image_step_given_up [OF nu clear absent f])
    show "download_images L net None (xs @ src # ys) fs =
            (case images_loop L net ys (given_up src s1) of
               Inl e \<Rightarrow> Inl e
             | Inr (ys', s3) \<Rightarrow> Inr (xs' @ src # ys', s3))"
      using images_loop_continues [OF pre st, of ys] by (simp add: download_images_def)
  next
    fix j data
    assume h: "j \<le> IMG_RETRY \<and> (\<forall>i<j. \<not> usable (net (length (requests s1) + i)))
            \<and> net (length (requests s1) + j) = Body data \<and> 100 \<le> length data"
    then have h1: "j \<le> IMG_RETRY" and h2: "\<forall>i<j. \<not> usable (net (length (requests s1) + i))"
      and h3: "net (length (requests s1) + j) = Body data" and h4: "100 \<le> length data"
      by blast+
    show st: "image_step L net src s1
            = Inr (''assets/'' @ next_filename L s1 src, fetched L src j data s1)"
      by (rule image_step_fetched [OF nu clear absent h1 h2 h3 h4])
    show "download_images L net None (xs @ src # ys) fs =
            (case images_loop L net ys (fetched L src j data s1) of
               Inl e \<Rightarrow> Inl e
             | Inr (ys', s3) \<Rightarrow> Inr (xs' @ (''assets/'' @ next_filename L s1 src) # ys', s3))"
      using images_loop_continues [OF pre st, of ys] by (simp add: download_images_def)
  qed
  have B: "\<not> usable RequestFailed \<and> (\<forall>data. usable (Body data) \<longleftrightarrow> 100 \<le> length data)"
    by simp
  have C: "pre_try_clear L 0 srcs \<longrightarrow>
        (\<exists>srcs' s'. download_images L net None srcs fs = Inr (srcs', s')
           \<and> length srcs' = length srcs \<and> total (stats s') = int (remote_count srcs)
           \<and> failed (stats s') = int (kept_remote srcs srcs'))"
    using download_images_visits [of L srcs net fs] by blast
  have D: "extract_content_soup PL raw = Inr soup \<and> article_mkdir_error E = None \<longrightarrow>
        (\<exists>r r0. extract_article PL E raw out sq True = Inr r
           \<and> extract_article PL E raw out sq False = Inr r0
           \<and> r_title r = r_title r0 \<and> r_author r = r_author r0
           \<and> r_publish_time r = r_publish_time r0 \<and> r_source_url r = r_source_url r0
           \<and> r_dir_name r = r_dir_name r0
           \<and> r_html_path r = r_html_path r0 \<and> r_md_path r = r_md_path r0
           \<and> r_errors r = expected_notes PL E raw True
           \<and> (case download_images (images_lib E) (images_net E) (assets_mkdir_error E)
                      (soup_img_srcs PL soup) (assets_files E) of
                 Inl e \<Rightarrow> r_img_stats r = None
               | Inr (srcs', st) \<Rightarrow> r_img_stats r = Some (stats st) \<and> r_errors r = r_errors r0))"
    using extract_article_images [of PL raw soup E out sq] by blast
  from A B C D show ?thesis by blast
qed

theorem image_failure_degrades_witness:
  "download_images sample_lib slow_net None [''data:abc'', sample_src, sample_src] Map.empty
     = Inr ([''data:abc'', sample_src, ''assets/img_002_9ab7859d.png''],
            fetched sample_lib sample_src 0 sample_data (given_up sample_src (start_state Map.empty)))
   \<and> stats (fetched sample_lib sample_src 0 sample_data (given_up sample_src (start_state Map.empty)))
     = \<lparr>total = 2, ok = 1, failed = 1, skipped = 0, bytes = 100\<rparr>
   \<and> requests (given_up sample_src (start_state Map.empty)) = [sample_src, sample_src, sample_src]
   \<and> (\<exists>srcs' s'. download_images sample_lib slow_net None [''data:abc'', sample_src, sample_src] Map.empty
          = Inr (srcs', s')
        \<and> length srcs' = 3 \<and> total (stats s') = 2 \<and> failed (stats s') = int (kept_remote [''data:abc'', sample_src, sample_src] srcs'))
   \<and> download_images sample_lib (\<lambda>k. RequestFailed) None [''http://[''] Map.empty = Inl ''Invalid IPv6 URL''
   \<and> (\<exists>r. extract_article broken_image_page_lib ok_env [] (asc ''out'') 1 True = Inr r
        \<and> r_errors r = [asc ''image download: Invalid IPv6 URL'']
        \<and> r_img_stats r = None
        \<and> r_html_path r = asc ''out/0001_Untitled/article.html''
        \<and> r_md_path r = asc ''out/0001_Untitled/article.md'')"
proof -
  let ?s0 = "start_state Map.empty"
  let ?g = "given_up sample_src ?s0"
  let ?f = "fetched sample_lib sample_src 0 sample_data ?g"
  have nu: "\<not> untouched sample_src" by code_simp
  have p0: "images_loop sample_lib slow_net [''data:abc''] ?s0 = Inr ([''data:abc''], ?s0)"
    by (simp add: image_step_def)
  have c0: "pre_try_error sample_lib sample_src (img_counter ?s0 + 1) = None"
    by (simp add: pre_try_error_def sample_lib_def sample_src_def)
  have a0: "\<not> file_present ?s0 (next_filename sample_lib ?s0 sample_src)"
    by (simp add: file_present_def start_state_def)
  have f0: "\<forall>j\<le>IMG_RETRY. \<not> usable (slow_net (length (requests ?s0) + j))"
    by (simp add: IMG_RETRY_def slow_net_def start_state_def)
  note t0 = image_failure_degrades [of sample_lib slow_net "[''data:abc'']" Map.empty "[''data:abc'']"
      ?s0 sample_src]
  from t0 [of "[]", THEN conjunct1] p0 nu c0 a0 f0
  have d1: "download_images sample_lib slow_net None ([''data:abc''] @ sample_src # []) Map.empty
      = (case images_loop sample_lib slow_net [] ?g of
           Inl e \<Rightarrow> Inl e
         | Inr (ys', s3) \<Rightarrow> Inr ([''data:abc''] @ sample_src # ys', s3))"
    by blast
  then have p1: "images_loop sample_lib slow_net [''data:abc'', sample_src] ?s0
      = Inr ([''data:abc'', sample_src], ?g)"
    by (simp add: download_images_def)
  have c1: "pre_try_error sample_lib sample_src (img_counter ?g + 1) = None"
    by (simp add: pre_try_error_def sample_lib_def sample_src_def)
  have a1: "\<not> file_present ?g (next_filename sample_lib ?g sample_src)"
    by (simp add: file_present_def start_state_def given_up_def)
  have l1: "length (requests ?g) = 3"
    by (simp add: given_up_def start_state_def IMG_RETRY_def)
  have h1: "(0::nat) \<le> IMG_RETRY \<and> (\<forall>i<0. \<not> usable (slow_net (length (requests ?g) + i)))
      \<and> slow_net (length (requests ?g) + 0) = Body sample_data \<and> 100 \<le> length sample_data"
    unfolding l1 by (simp add: slow_net_def sample_data_def)
  have n1: "next_filename sample_lib ?g sample_src = ''img_002_9ab7859d.png''"
    by code_simp
  note t1 = image_failure_degrades [of sample_lib slow_net "[''data:abc'', sample_src]" Map.empty
      "[''data:abc'', sample_src]" ?g sample_src]
  from t1 [of "[]", THEN conjunct1] p1 nu c1 a1 h1
  have d2: "download_images sample_lib slow_net None ([''data:abc'', sample_src] @ sample_src # []) Map.empty
      = (case images_loop sample_lib slow_net [] ?f of
           Inl e \<Rightarrow> Inl e
         | Inr (ys', s3) \<Rightarrow>
             Inr ([''data:abc'', sample_src] @ (''assets/'' @ next_filename sample_lib ?g sample_src) # ys', s3))"
    by blast
  have r1: "download_images sample_lib slow_net None [''data:abc'', sample_src, sample_src] Map.empty
     = Inr ([''data:abc'', sample_src, ''assets/img_002_9ab7859d.png''], ?f)"
    using d2 unfolding n1 by simp
  have r2: "stats ?f = \<lparr>total = 2, ok = 1, failed = 1, skipped = 0, bytes = 100\<rparr>"
    by (simp add: fetched_def given_up_def start_state_def sample_data_def)
  have r3: "requests ?g = [sample_src, sample_src, sample_src]"
    by (simp add: given_up_def start_state_def IMG_RETRY_def numeral_3_eq_3)
  have pc: "pre_try_clear sample_lib 0 [''data:abc'', sample_src, sample_src]"
    by code_simp
  have rc: "remote_count [''data:abc'', sample_src, sample_src] = 2"
    by code_simp
  from t0 [of _ "[''data:abc'', sample_src, sample_src]",
      THEN conjunct2, THEN conjunct2, THEN conjunct2, THEN conjunct1] pc
  have r4: "\<exists>srcs' s'. download_images sample_lib slow_net None [''data:abc'', sample_src, sample_src] Map.empty
          = Inr (srcs', s')
        \<and> length srcs' = length [''data:abc'', sample_src, sample_src]
        \<and> total (stats s') = int (remote_count [''data:abc'', sample_src, sample_src])
        \<and> failed (stats s') = int (kept_remote [''data:abc'', sample_src, sample_src] srcs')"
    by blast
  have r5: "download_images sample_lib (\<lambda>k. RequestFailed) None [''http://[''] Map.empty = Inl ''Invalid IPv6 URL''"
  proof -
    let ?d = "download_images sample_lib (\<lambda>k. RequestFailed) None [''http://[''] Map.empty"
    have "isl ?d" by code_simp
    moreover have "projl ?d = ''Invalid IPv6 URL''" by code_simp
    ultimately show ?thesis by (cases ?d) simp_all
  qed
  have e1: "extract_content_soup broken_image_page_lib [] = Inr () \<and> article_mkdir_error ok_env = None"
    by (simp add: extract_content_soup_def broken_image_page_lib_def blank_page_lib_def ok_env_def)
  have e2: "download_images (images_lib ok_env) (images_net ok_env) (assets_mkdir_error ok_env)
      (soup_img_srcs broken_image_page_lib ()) (assets_files ok_env) = Inl ''Invalid IPv6 URL''"
    using r5 by (simp add: ok_env_def broken_image_page_lib_def blank_page_lib_def)
  have e3: "expected_notes broken_image_page_lib ok_env [] True = [asc ''image download: Invalid IPv6 URL'']"
    by code_simp
  have e4: "r_html_path (projr (extract_article broken_image_page_lib ok_env [] (asc ''out'') 1 False))
      = asc ''out/0001_Untitled/article.html''"
    "r_md_path (projr (extract_article broken_image_page_lib ok_env [] (asc ''out'') 1 False))
      = asc ''out/0001_Untitled/article.md''"
    by code_simp+
  from t0 [of _ _ broken_image_page_lib "[]" "()" ok_env "asc ''out''" 1,
      THEN conjunct2, THEN conjunct2, THEN conjunct2, THEN conjunct2] e1
  obtain r r0 where x: "extract_article broken_image_page_lib ok_env [] (asc ''out'') 1 True = Inr r"
    "extract_article broken_image_page_lib ok_env [] (asc ''out'') 1 False = Inr r0"
    "r_html_path r = r_html_path r0" "r_md_path r = r_md_path r0"
    "r_errors r = expected_notes broken_image_page_lib ok_env [] True"
    "(case download_images (images_lib ok_env) (images_net ok_env) (assets_mkdir_error ok_env)
                      (soup_img_srcs broken_image_page_lib ()) (assets_files ok_env) of
                 Inl e \<Rightarrow> r_img_stats r = None
               | Inr (srcs', st) \<Rightarrow> r_img_stats r = Some (stats st) \<and> r_errors r = r_errors r0)"
    by blast
  have x6: "r_img_stats r = None" using x(6) unfolding e2 by simp
  have r6: "\<exists>r. extract_article broken_image_page_lib ok_env [] (asc ''out'') 1 True = Inr r
        \<and> r_errors r = [asc ''image download: Invalid IPv6 URL'']
        \<and> r_img_stats r = None
        \<and> r_html_path r = asc ''out/0001_Untitled/article.html''
        \<and> r_md_path r = asc ''out/0001_Untitled/article.md''"
    using x(1,3,4,5) x6 e4 unfolding e3 x(2) by simp
  from r4 obtain srcs' s' where y:
    "download_images sample_lib slow_net None [''data:abc'', sample_src, sample_src] Map.empty = Inr (srcs', s')"
    "length srcs' = length [''data:abc'', sample_src, sample_src]"
    "total (stats s') = int (remote_count [''data:abc'', sample_src, sample_src])"
    "failed (stats s') = int (kept_remote [''data:abc'', sample_src, sample_src] srcs')"
    by blast
  have y2: "length srcs' = 3" using y(2) by simp
  have y3: "total (stats s') = 2" using y(3) unfolding rc by simp
  have r4': "\<exists>srcs' s'. download_images sample_lib slow_net None [''data:abc'', sample_src, sample_src] Map.empty
          = Inr (srcs', s')
        \<and> length srcs' = 3 \<and> total (stats s') = 2
        \<and> failed (stats s') = int (kept_remote [''data:abc'', sample_src, sample_src] srcs')"
    using y(1) y2 y3 y(4) by blast
  show ?thesis using r1 r2 r3 r4' r5 r6 by blast
qed

end
